theory Spec2Isabelle
  imports Main
begin

section \<open>Data model\<close>

text \<open>
  The three programs (\<^verbatim>\<open>tic_tac_toe.py\<close>, \<^verbatim>\<open>SOA_TTT.py\<close>, \<^verbatim>\<open>TTT_Client.py\<close>) keep the
  board in a Python list of one-character strings: \<^verbatim>\<open>'x'\<close>, \<^verbatim>\<open>'o'\<close> and \<^verbatim>\<open>'e'\<close> for an
  empty cell. A cell is modelled by the character it holds, a board by the list of its
  cells. Nothing in the functions fixes the length of the list: reading or writing a cell
  that is not there raises \<^verbatim>\<open>IndexError\<close>, which the model returns as a value.
\<close>

datatype error = IndexError | ValueError

type_synonym board = "char list"

text \<open>
  \<^verbatim>\<open>check_win(board, player)\<close> compares cells with \<^verbatim>\<open>player\<close> by \<^verbatim>\<open>==\<close>. The callers
  pass a string (\<^verbatim>\<open>'x'\<close>, \<^verbatim>\<open>'o'\<close>) or, in \<^verbatim>\<open>minimax\<close>, the boolean \<^verbatim>\<open>isX\<close>. In Python a
  string never equals a boolean.
\<close>

datatype pyval = PStr string | PBool bool

text \<open>
  Utilities, \<^verbatim>\<open>alpha\<close> and \<^verbatim>\<open>beta\<close> are Python integers or the floats \<^verbatim>\<open>-inf\<close> and
  \<^verbatim>\<open>inf\<close>.
\<close>

datatype ext = NegInf | Fin int | PosInf

fun ext_le :: "ext \<Rightarrow> ext \<Rightarrow> bool" where
  "ext_le NegInf _ = True"
| "ext_le (Fin a) NegInf = False"
| "ext_le (Fin a) (Fin b) = (a \<le> b)"
| "ext_le (Fin a) PosInf = True"
| "ext_le PosInf PosInf = True"
| "ext_le PosInf _ = False"

instantiation ext :: linorder
begin

definition less_eq_ext :: "ext \<Rightarrow> ext \<Rightarrow> bool" where
  "less_eq_ext a b = ext_le a b"

definition less_ext :: "ext \<Rightarrow> ext \<Rightarrow> bool" where
  "less_ext a b = (ext_le a b \<and> \<not> ext_le b a)"

instance
proof
  fix x y z :: ext
  show "(x < y) = (x \<le> y \<and> \<not> y \<le> x)"
    by (simp add: less_ext_def less_eq_ext_def)
  show "x \<le> x"
    by (cases x) (simp_all add: less_eq_ext_def)
  show "x \<le> y \<Longrightarrow> y \<le> z \<Longrightarrow> x \<le> z"
    by (cases x; cases y; cases z) (simp_all add: less_eq_ext_def)
  show "x \<le> y \<Longrightarrow> y \<le> x \<Longrightarrow> x = y"
    by (cases x; cases y) (simp_all add: less_eq_ext_def)
  show "x \<le> y \<or> y \<le> x"
    by (cases x; cases y) (auto simp: less_eq_ext_def)
qed

end

section \<open>Reading and writing cells\<close>

text \<open>\<^verbatim>\<open>board[i]\<close> for an index \<^verbatim>\<open>i >= 0\<close>.\<close>

definition getitem :: "board \<Rightarrow> nat \<Rightarrow> error + char" where
  "getitem board i = (if i < length board then Inr (board ! i) else Inl IndexError)"

text \<open>\<^verbatim>\<open>board[i] = c\<close> for an index \<^verbatim>\<open>i >= 0\<close>.\<close>

definition setitem :: "board \<Rightarrow> nat \<Rightarrow> char \<Rightarrow> error + board" where
  "setitem board i c = (if i < length board then Inr (board[i := c]) else Inl IndexError)"

section \<open>Win detection: \<^verbatim>\<open>check_win\<close>\<close>

text \<open>
  One disjunct of the condition, \<^verbatim>\<open>board[a] == player and board[b] == player and
  board[c] == player\<close>: \<^verbatim>\<open>and\<close> stops at the first cell that differs.
\<close>

fun all_cells :: "board \<Rightarrow> pyval \<Rightarrow> nat list \<Rightarrow> error + bool" where
  "all_cells board player [] = Inr True"
| "all_cells board player (i # is) =
     (case getitem board i of
        Inl e \<Rightarrow> Inl e
      | Inr c \<Rightarrow> if PStr [c] = player then all_cells board player is else Inr False)"

text \<open>The disjunction of the lines: \<^verbatim>\<open>or\<close> stops at the first line that holds.\<close>

fun any_line :: "board \<Rightarrow> pyval \<Rightarrow> nat list list \<Rightarrow> error + bool" where
  "any_line board player [] = Inr False"
| "any_line board player (l # ls) =
     (case all_cells board player l of
        Inl e \<Rightarrow> Inl e
      | Inr True \<Rightarrow> Inr True
      | Inr False \<Rightarrow> any_line board player ls)"

definition win_lines :: "nat list list" where
  "win_lines = [[0, 1, 2], [3, 4, 5], [6, 7, 8],
                [0, 3, 6], [1, 4, 7], [2, 5, 8],
                [0, 4, 8], [6, 4, 2]]"

definition check_win :: "board \<Rightarrow> pyval \<Rightarrow> error + bool" where
  "check_win board player = any_line board player win_lines"

section \<open>Move generation: \<^verbatim>\<open>generate_moves\<close>\<close>

text \<open>The loop \<^verbatim>\<open>for i in range(0, 9)\<close>, appending the indices of the empty cells.\<close>

fun scan_cells :: "board \<Rightarrow> nat list \<Rightarrow> nat list \<Rightarrow> error + nat list" where
  "scan_cells board [] next_moves = Inr next_moves"
| "scan_cells board (i # is) next_moves =
     (case getitem board i of
        Inl e \<Rightarrow> Inl e
      | Inr c \<Rightarrow> scan_cells board is (if c = CHR ''e'' then next_moves @ [i] else next_moves))"

definition generate_moves :: "board \<Rightarrow> error + nat list" where
  "generate_moves board =
     (case check_win board (PStr ''x'') of
        Inl e \<Rightarrow> Inl e
      | Inr True \<Rightarrow> Inr []
      | Inr False \<Rightarrow>
          (case check_win board (PStr ''o'') of
             Inl e \<Rightarrow> Inl e
           | Inr True \<Rightarrow> Inr []
           | Inr False \<Rightarrow> scan_cells board [0..<9] []))"

section \<open>Static evaluation: \<^verbatim>\<open>heuristic\<close>\<close>

definition row3 :: "string list" where
  "row3 = [''xxx'', ''ooo'']"

definition row2 :: "string list" where
  "row2 = [''xxe'', ''exx'', ''ooe'', ''eoo'']"

definition row1 :: "string list" where
  "row1 = [''xee'', ''exe'', ''eex'', ''oee'', ''eoe'', ''eeo'']"

definition line_index :: "nat list list" where
  "line_index = [[0, 1, 2], [3, 4, 5], [6, 7, 8],
                 [2, 5, 8], [1, 4, 7], [0, 3, 6],
                 [0, 4, 8], [2, 4, 6]]"

text \<open>The inner loop \<^verbatim>\<open>for i in line: tst_str += board[i]\<close>.\<close>

fun build_str :: "board \<Rightarrow> nat list \<Rightarrow> string \<Rightarrow> error + string" where
  "build_str board [] tst_str = Inr tst_str"
| "build_str board (i # is) tst_str =
     (case getitem board i of
        Inl e \<Rightarrow> Inl e
      | Inr c \<Rightarrow> build_str board is (tst_str @ [c]))"

text \<open>The \<^verbatim>\<open>if\<close>/\<^verbatim>\<open>elif\<close> chain that updates \<^verbatim>\<open>score\<close> for one line.\<close>

definition score_line :: "string \<Rightarrow> int \<Rightarrow> int" where
  "score_line tst_str score =
     (if tst_str \<in> set row3 then
        (if count_list tst_str (CHR ''x'') \<ge> 1 then score + 100 else score - 100)
      else if tst_str \<in> set row2 then
        (if count_list tst_str (CHR ''x'') \<ge> 1 then score + 10 else score - 10)
      else if tst_str \<in> set row1 then
        (if count_list tst_str (CHR ''x'') \<ge> 1 then score + 1 else score - 1)
      else score)"

text \<open>The outer loop \<^verbatim>\<open>for line in line_index\<close>.\<close>

fun score_lines :: "board \<Rightarrow> nat list list \<Rightarrow> int \<Rightarrow> error + int" where
  "score_lines board [] score = Inr score"
| "score_lines board (line # lines) score =
     (case build_str board line [] of
        Inl e \<Rightarrow> Inl e
      | Inr tst_str \<Rightarrow> score_lines board lines (score_line tst_str score))"

definition heuristic :: "board \<Rightarrow> error + int" where
  "heuristic board = score_lines board line_index 0"

section \<open>Search: \<^verbatim>\<open>minimax\<close>\<close>

text \<open>
  \<^verbatim>\<open>tic_tac_toe.py\<close> and \<^verbatim>\<open>TTT_Client.py\<close> hold the same \<^verbatim>\<open>minimax\<close>; the one of
  \<^verbatim>\<open>SOA_TTT.py\<close> differs in its cutoff test (it does not look at the move list) and
  computes the move list only after that test. The variant selects between the two.

  The board is a mutable list shared with the caller: \<^verbatim>\<open>minimax\<close> returns, next to its
  result \<^verbatim>\<open>(utility, best_move)\<close>, the board as it is when the call returns. An
  \<^verbatim>\<open>IndexError\<close> is caught nowhere and ends the program. \<^verbatim>\<open>for_moves\<close> is the loop
  \<^verbatim>\<open>for move in move_list\<close>, with the variables it updates as parameters.
\<close>

datatype variant = TicTacToe | SOA

function minimax :: "variant \<Rightarrow> board \<Rightarrow> int \<Rightarrow> ext \<Rightarrow> ext \<Rightarrow> bool \<Rightarrow> error + ((ext \<times> int) \<times> board)"
  and for_moves :: "variant \<Rightarrow> nat list \<Rightarrow> board \<Rightarrow> int \<Rightarrow> ext \<Rightarrow> ext \<Rightarrow> bool \<Rightarrow> ext \<Rightarrow> int
                    \<Rightarrow> error + ((ext \<times> int) \<times> board)"
where
  "minimax v board depth alpha beta isX =
     (case v of
        TicTacToe \<Rightarrow>
          (case generate_moves board of
             Inl e \<Rightarrow> Inl e
           | Inr move_list \<Rightarrow>
               (case (if depth = 0 \<or> move_list = [] then Inr True
                      else check_win board (PBool isX)) of
                  Inl e \<Rightarrow> Inl e
                | Inr True \<Rightarrow>
                    (case heuristic board of
                       Inl e \<Rightarrow> Inl e
                     | Inr h \<Rightarrow> Inr ((Fin h, - 1), board))
                | Inr False \<Rightarrow>
                    for_moves v move_list board depth alpha beta isX
                      (if isX then NegInf else PosInf) (- 1)))
      | SOA \<Rightarrow>
          (case (if depth = 0 then Inr True else check_win board (PBool isX)) of
             Inl e \<Rightarrow> Inl e
           | Inr True \<Rightarrow>
               (case heuristic board of
                  Inl e \<Rightarrow> Inl e
                | Inr h \<Rightarrow> Inr ((Fin h, - 1), board))
           | Inr False \<Rightarrow>
               (case generate_moves board of
                  Inl e \<Rightarrow> Inl e
                | Inr move_list \<Rightarrow>
                    for_moves v move_list board depth alpha beta isX
                      (if isX then NegInf else PosInf) (- 1))))"
| "for_moves v [] board depth alpha beta isX utility best_move =
     Inr ((utility, best_move), board)"
| "for_moves v (move # rest) board depth alpha beta isX utility best_move =
     (case setitem board move (if isX then CHR ''x'' else CHR ''o'') of
        Inl e \<Rightarrow> Inl e
      | Inr board1 \<Rightarrow>
          (case minimax v board1 (depth - 1) alpha beta (\<not> isX) of
             Inl e \<Rightarrow> Inl e
           | Inr ((test_utility, pos), board2) \<Rightarrow>
               (case setitem board2 move (CHR ''e'') of
                  Inl e \<Rightarrow> Inl e
                | Inr board3 \<Rightarrow>
                    (let pos = int move;
                         best_move' = (if isX then (if test_utility > utility then pos else best_move)
                                       else (if test_utility < utility then pos else best_move));
                         utility' = (if isX then (if test_utility > utility then test_utility else utility)
                                     else (if test_utility < utility then test_utility else utility));
                         alpha' = (if isX then max utility' alpha else alpha);
                         beta' = (if isX then beta else min utility' beta)
                     in if alpha' \<ge> beta' then Inr ((utility', best_move'), board3)
                        else for_moves v rest board3 depth alpha' beta' isX utility' best_move'))))"
  by pat_completeness auto



lemma scan_cells_sound:
  "scan_cells board is acc = Inr ms \<Longrightarrow>
     set ms \<subseteq> set acc \<union> {i \<in> set is. i < length board \<and> board ! i = CHR ''e''}"
proof (induction "is" arbitrary: acc)
  case Nil
  then show ?case by simp
next
  case (Cons a "is")
  from Cons.prems have lt: "a < length board"
    by (simp add: getitem_def split: if_splits)
  let ?acc = "if board ! a = CHR ''e'' then acc @ [a] else acc"
  from Cons.prems lt have "scan_cells board is ?acc = Inr ms"
    by (simp add: getitem_def)
  from Cons.IH [OF this] lt show ?case
    by (auto split: if_splits)
qed

lemma generate_moves_sound:
  assumes "generate_moves board = Inr ms" and "m \<in> set ms"
  shows "m < length board \<and> board ! m = CHR ''e''"
proof -
  from assms(1) have "ms = [] \<or> scan_cells board [0..<9] [] = Inr ms"
    by (auto simp: generate_moves_def split: sum.splits bool.splits)
  with assms(2) show ?thesis
    using scan_cells_sound [of board "[0..<9]" "[]" ms] by auto
qed

lemma frame_partial:
  shows "minimax_for_moves_dom (Inl (v, board, depth, alpha, beta, isX)) \<Longrightarrow>
           (\<forall>r b'. minimax v board depth alpha beta isX = Inr (r, b') \<longrightarrow> b' = board)"
    and "minimax_for_moves_dom (Inr (v, moves, board, depth, alpha, beta, isX, utility, best_move)) \<Longrightarrow>
           (\<forall>m \<in> set moves. board ! m = CHR ''e'') \<longrightarrow>
           (\<forall>r b'. for_moves v moves board depth alpha beta isX utility best_move = Inr (r, b')
              \<longrightarrow> b' = board)"
proof (induct rule: minimax_for_moves.pinduct)
  case (1 v board depth alpha beta isX)
  show ?case
  proof (intro allI impI)
    fix r b'
    assume res: "minimax v board depth alpha beta isX = Inr (r, b')"
    show "b' = board"
    proof (cases v)
      case TicTacToe
      from res 1(1) TicTacToe obtain ms where gm: "generate_moves board = Inr ms"
        by (auto simp: minimax.psimps split: sum.splits)
      from res 1(1) TicTacToe gm obtain c where
        c: "(if depth = 0 \<or> ms = [] then Inr True else check_win board (PBool isX)) = Inr c"
        by (auto simp: minimax.psimps split: sum.splits)
      show ?thesis
      proof (cases c)
        case True
        with res 1(1) TicTacToe gm c show ?thesis
          by (auto simp: minimax.psimps split: sum.splits)
      next
        case False
        with res 1(1) TicTacToe gm c have
          "for_moves v ms board depth alpha beta isX (if isX then NegInf else PosInf) (- 1) = Inr (r, b')"
          by (simp add: minimax.psimps)
        with 1(2) [OF TicTacToe gm c] False generate_moves_sound [OF gm] show ?thesis
          by blast
      qed
    next
      case SOA
      from res 1(1) SOA obtain c where
        c: "(if depth = 0 then Inr True else check_win board (PBool isX)) = Inr c"
        by (auto simp: minimax.psimps split: sum.splits)
      show ?thesis
      proof (cases c)
        case True
        with res 1(1) SOA c show ?thesis
          by (auto simp: minimax.psimps split: sum.splits)
      next
        case False
        with res 1(1) SOA c obtain ms where gm: "generate_moves board = Inr ms"
          by (auto simp: minimax.psimps split: sum.splits)
        with res 1(1) SOA c False have
          "for_moves v ms board depth alpha beta isX (if isX then NegInf else PosInf) (- 1) = Inr (r, b')"
          by (simp add: minimax.psimps)
        moreover from False have "c = False" by simp
        ultimately show ?thesis
          using 1(3) [OF SOA c _ gm] generate_moves_sound [OF gm] by blast
      qed
    qed
  qed
next
  case (2 v board depth alpha beta isX utility best_move)
  then show ?case by (simp add: for_moves.psimps)
next
  case (3 v move rest board depth alpha beta isX utility best_move)
  show ?case
  proof (intro allI impI)
    fix r b'
    assume good: "\<forall>m \<in> set (move # rest). board ! m = CHR ''e''"
      and res: "for_moves v (move # rest) board depth alpha beta isX utility best_move = Inr (r, b')"
    let ?p = "if isX then CHR ''x'' else CHR ''o''"
    from res 3(1) obtain b1 where b1: "setitem board move ?p = Inr b1"
      by (auto simp: for_moves.psimps split: sum.splits)
    hence lt: "move < length board" and b1_def: "b1 = board[move := ?p]"
      by (auto simp: setitem_def split: if_splits)
    from res 3(1) b1 obtain tu ps b2 where
      mm: "minimax v b1 (depth - 1) alpha beta (\<not> isX) = Inr ((tu, ps), b2)"
      by (auto simp: for_moves.psimps split: sum.splits prod.splits)
    with 3(2) [OF b1] have b2: "b2 = b1" by blast
    have b3: "setitem b2 move (CHR ''e'') = Inr board"
      using good lt by (simp add: b2 b1_def setitem_def list_update_same_conv)
    show "b' = board"
      using res 3(1) b1 mm b3 good 3(3) [OF b1 mm refl refl b3 refl refl refl refl refl]
      by (auto simp: for_moves.psimps Let_def split: if_splits)
  qed
qed

lemma card_cells_less:
  assumes "move < length board" and "c \<noteq> CHR ''e''"
  shows "card {i. i < length board \<and> board[move := c] ! i = CHR ''e''}
       < card {i. i < length board \<and> (board ! i = CHR ''e'' \<or> i \<in> set (move # rest))}"
proof (rule psubset_card_mono)
  show "finite {i. i < length board \<and> (board ! i = CHR ''e'' \<or> i \<in> set (move # rest))}"
    by simp
  show "{i. i < length board \<and> board[move := c] ! i = CHR ''e''}
      \<subset> {i. i < length board \<and> (board ! i = CHR ''e'' \<or> i \<in> set (move # rest))}"
    using assms by (auto simp: nth_list_update split: if_splits)
qed

text \<open>
  The recursion ends because every recursive call of \<^verbatim>\<open>minimax\<close> is made on a board with
  one more cell taken. The loop writes to the board that the recursive call hands back, so
  the termination proof needs that a call which returns leaves the board as it was.
\<close>

termination minimax
proof (relation "measures
    [\<lambda>x. case x of
           Inl (v, board, depth, alpha, beta, isX) \<Rightarrow>
             2 * card {i. i < length board \<and> board ! i = CHR ''e''} + 1
         | Inr (v, moves, board, depth, alpha, beta, isX, utility, best_move) \<Rightarrow>
             2 * card {i. i < length board \<and> (board ! i = CHR ''e'' \<or> i \<in> set moves)},
     \<lambda>x. case x of
           Inl _ \<Rightarrow> 0
         | Inr (v, moves, board, depth, alpha, beta, isX, utility, best_move) \<Rightarrow> length moves]",
    goal_cases)
  case 1
  show ?case by simp
next
  case (2 v board depth alpha beta isX ms c)
  have "{i. i < length board \<and> (board ! i = CHR ''e'' \<or> i \<in> set ms)}
      = {i. i < length board \<and> board ! i = CHR ''e''}"
    using generate_moves_sound [OF 2(2)] by auto
  then show ?case by simp
next
  case (3 v board depth alpha beta isX c ms)
  have "{i. i < length board \<and> (board ! i = CHR ''e'' \<or> i \<in> set ms)}
      = {i. i < length board \<and> board ! i = CHR ''e''}"
    using generate_moves_sound [OF 3(4)] by auto
  then show ?case by simp
next
  case (4 v move rest board depth alpha beta isX utility best_move b1)
  let ?p = "if isX then CHR ''x'' else CHR ''o''"
  from 4 have lt: "move < length board" and b1: "b1 = board[move := ?p]"
    by (auto simp: setitem_def split: if_splits)
  have "?p \<noteq> CHR ''e''" by simp
  from card_cells_less [OF lt this, of rest] show ?case
    by (simp add: b1)
next
  case (5 v move rest board depth alpha beta isX utility best_move b1 res r b2 tu ps b3 xb xc xd xe xf)
  let ?p = "if isX then CHR ''x'' else CHR ''o''"
  from 5(1) have lt: "move < length board" and b1: "b1 = board[move := ?p]"
    by (auto simp: setitem_def split: if_splits)
  from 5(2,3,4) have mm: "minimax v b1 (depth - 1) alpha beta (\<not> isX) = Inr ((tu, ps), b2)"
    by simp
  from frame_partial(1) [OF 5(12)] mm have b2: "b2 = b1" by blast
  from 5(5) lt have b3: "b3 = board[move := CHR ''e'']"
    by (auto simp: setitem_def b2 b1 split: if_splits)
  have "{i. i < length b3 \<and> (b3 ! i = CHR ''e'' \<or> i \<in> set rest)}
      = {i. i < length board \<and> (board ! i = CHR ''e'' \<or> i \<in> set (move # rest))}"
    using lt by (auto simp: b3 nth_list_update split: if_splits)
  then show ?case by simp
qed

declare minimax.simps [simp del]

section \<open>The protocol client: the receive loop of \<^verbatim>\<open>TTT_Client.py\<close>\<close>

subsection \<open>String operations\<close>

text \<open>\<^verbatim>\<open>sub in s\<close> on strings: \<^verbatim>\<open>sub\<close> occurs in \<^verbatim>\<open>s\<close> as a contiguous substring.\<close>

fun starts_with :: "string \<Rightarrow> string \<Rightarrow> bool" where
  "starts_with [] s = True"
| "starts_with (a # sub) [] = False"
| "starts_with (a # sub) (c # s) = (a = c \<and> starts_with sub s)"

fun contains :: "string \<Rightarrow> string \<Rightarrow> bool" where
  "contains sub [] = (sub = [])"
| "contains sub (c # s) = (starts_with sub (c # s) \<or> contains sub s)"

text \<open>\<^verbatim>\<open>s.split(sep)\<close> for a one-character separator; the result is never empty.\<close>

fun split :: "char \<Rightarrow> string \<Rightarrow> string list" where
  "split sep [] = [[]]"
| "split sep (c # s) =
     (if c = sep then [] # split sep s
      else (case split sep s of
              [] \<Rightarrow> [[c]]
            | w # ws \<Rightarrow> (c # w) # ws))"

text \<open>
  \<^verbatim>\<open>s.lower()\<close>. A character stands for a code point below 256: the letters \<^verbatim>\<open>A\<close> to
  \<^verbatim>\<open>Z\<close> and the capital letters from U+00C0 to U+00DE (all of that range but the
  multiplication sign U+00D7) are moved up by 32, and every other character is kept.
\<close>

definition lower_char :: "char \<Rightarrow> char" where
  "lower_char c =
     (let n = (of_char c :: nat)
      in if of_char (CHR ''A'') \<le> n \<and> n \<le> of_char (CHR ''Z'') then char_of (n + 32)
         else if 192 \<le> n \<and> n \<le> 222 \<and> n \<noteq> 215 then char_of (n + 32)
         else c)"

definition lower :: "string \<Rightarrow> string" where
  "lower s = map lower_char s"

text \<open>\<^verbatim>\<open>int(c)\<close> for a one-character string: a decimal digit or \<^verbatim>\<open>ValueError\<close>.\<close>

definition int_of_char :: "char \<Rightarrow> error + int" where
  "int_of_char c =
     (let n = (of_char c :: nat)
      in if of_char (CHR ''0'') \<le> n \<and> n \<le> of_char (CHR ''9'')
         then Inr (int n - int (of_char (CHR ''0''))) else Inl ValueError)"

text \<open>\<^verbatim>\<open>board[i] = c\<close> for any integer \<^verbatim>\<open>i\<close>: a negative index counts from the end.\<close>

definition setitem_int :: "board \<Rightarrow> int \<Rightarrow> char \<Rightarrow> error + board" where
  "setitem_int board i c =
     (let n = int (length board); j = (if i < 0 then n + i else i)
      in if 0 \<le> j \<and> j < n then Inr (board[nat j := c]) else Inl IndexError)"

subsection \<open>State of the loop\<close>

text \<open>
  The variables of \<^verbatim>\<open>main\<close> that the loop reads and writes. \<^verbatim>\<open>cl_message\<close> and
  \<^verbatim>\<open>cl_message_line\<close> are \<^verbatim>\<open>None\<close> between uses. \<^verbatim>\<open>cl_sent\<close> lists the numbers \<^verbatim>\<open>n\<close> of
  the calls \<^verbatim>\<open>s.send(str.encode(str(n)))\<close> so far, oldest first.
\<close>

record client =
  cl_player :: char
  cl_opp :: char
  cl_isX :: bool
  cl_message :: "string option"
  cl_message_stack :: "string list"
  cl_message_line :: "string option"
  cl_board :: board
  cl_cont_counter :: int
  cl_end :: bool
  cl_sent :: "int list"

text \<open>
  How one pass through the loop body ends: at its last statement or at \<^verbatim>\<open>continue\<close>
  (then the loop tests \<^verbatim>\<open>not end\<close> again), or in \<^verbatim>\<open>exit()\<close> after the socket is closed.
\<close>

datatype exit_reason = ServerError | ClientSideError

datatype step = Continue client | Exit exit_reason client

subsection \<open>The state check\<close>

text \<open>The branches of the \<^verbatim>\<open>if\<close>/\<^verbatim>\<open>elif\<close> chain, named as the comments above them.\<close>

datatype branch = Board9 | ClientMove | SvrMove | Winner | Final | ErrorLine | ClientError

definition state_check :: "string \<Rightarrow> branch" where
  "state_check message_line =
     (if length message_line = 9 \<and> \<not> contains ''Tie'' message_line then Board9
      else if contains ''Client'' message_line then ClientMove
      else if contains ''Server'' message_line then SvrMove
      else if contains ''Win'' message_line \<or> contains ''Tie'' message_line then Winner
      else if contains ''Disconnecting'' message_line then Final
      else if contains ''Error'' message_line then ErrorLine
      else ClientError)"

text \<open>
  The loop \<^verbatim>\<open>for i in range(0, 9)\<close> of the first branch; the list has nine cells there.
\<close>

definition blank_digits :: "board \<Rightarrow> board" where
  "blank_digits board =
     fold (\<lambda>i b. if b ! i \<in> set ''123456789'' then b[i := CHR ''e''] else b) [0..<9] board"

definition process_line :: "client \<Rightarrow> string \<Rightarrow> error + step" where
  "process_line c message_line =
     (case state_check message_line of
        Board9 \<Rightarrow>
          Inr (Continue (c\<lparr>cl_board := blank_digits (lower message_line),
                           cl_message_line := None\<rparr>))
      | ClientMove \<Rightarrow>
          (case (if contains (cl_board c) ''eeeeeeeee'' then Inr (4, cl_board c)
                 else (case minimax TicTacToe (cl_board c) 100 NegInf PosInf (cl_isX c) of
                         Inl e \<Rightarrow> Inl e
                       | Inr ((utility, best_move), board1) \<Rightarrow> Inr (best_move, board1))) of
             Inl e \<Rightarrow> Inl e
           | Inr (move, board1) \<Rightarrow>
               (case setitem_int board1 move (cl_player c) of
                  Inl e \<Rightarrow> Inl e
                | Inr board2 \<Rightarrow>
                    Inr (Continue (c\<lparr>cl_board := board2, cl_sent := cl_sent c @ [move + 1],
                                     cl_message_line := None\<rparr>))))
      | SvrMove \<Rightarrow>
          (case int_of_char (last message_line) of
             Inl e \<Rightarrow> Inl e
           | Inr pos \<Rightarrow>
               (case setitem_int (cl_board c) (pos - 1) (cl_opp c) of
                  Inl e \<Rightarrow> Inl e
                | Inr board' \<Rightarrow>
                    Inr (Continue (c\<lparr>cl_board := board', cl_message_line := None\<rparr>))))
      | Winner \<Rightarrow> Inr (Continue (c\<lparr>cl_message_line := None\<rparr>))
      | Final \<Rightarrow> Inr (Continue (c\<lparr>cl_end := True, cl_message_line := None\<rparr>))
      | ErrorLine \<Rightarrow> Inr (Exit ServerError c)
      | ClientError \<Rightarrow> Inr (Exit ClientSideError c))"

subsection \<open>One pass through the loop body\<close>

text \<open>
  \<^verbatim>\<open>message_stack.pop(0)\<close>, repeated while the line popped is empty. \<^verbatim>\<open>None\<close> stands for
  the \<^verbatim>\<open>IndexError\<close> of popping from the empty list, which the loop body catches.
\<close>

fun pop_line :: "string list \<Rightarrow> (string \<times> string list) option" where
  "pop_line [] = None"
| "pop_line (l # ls) = (if l = [] then pop_line ls else Some (l, ls))"

text \<open>
  \<^verbatim>\<open>recv\<close> is what \<^verbatim>\<open>s.recv(64).decode()\<close> gives if the pass calls it: \<^verbatim>\<open>Some data\<close>, or
  \<^verbatim>\<open>None\<close> for \<^verbatim>\<open>socket.timeout\<close>.
\<close>

definition iteration :: "client \<Rightarrow> string option \<Rightarrow> error + step" where
  "iteration c recv =
     (let message = (if cl_message_stack c = [] then
                       (case recv of Some data \<Rightarrow> Some data | None \<Rightarrow> cl_message c)
                     else cl_message c);
          message_stack = (case message of
                             Some m \<Rightarrow> cl_message_stack c @ split (CHR 0x0A) m
                           | None \<Rightarrow> cl_message_stack c);
          c1 = c\<lparr>cl_message := None, cl_message_stack := message_stack\<rparr>
      in case pop_line message_stack of
           None \<Rightarrow>
             Inr (Continue (c1\<lparr>cl_message_stack := [],
                               cl_message_line :=
                                 (if cl_cont_counter c > 4 then Some ''No longer receiving messages''
                                  else if message_stack = [] then cl_message_line c
                                  else Some []),
                               cl_cont_counter := cl_cont_counter c + 1\<rparr>))
         | Some (message_line, rest) \<Rightarrow>
             process_line (c1\<lparr>cl_message_stack := rest, cl_message_line := Some message_line\<rparr>)
               message_line)"

text \<open>
  The loop \<^verbatim>\<open>while (not end)\<close>, run on a list of read results, one for each pass. It
  stops when the list is used up and returns the state reached.
\<close>

fun run :: "client \<Rightarrow> string option list \<Rightarrow> error + step" where
  "run c [] = Inr (Continue c)"
| "run c (recv # recvs) =
     (if cl_end c then Inr (Continue c)
      else (case iteration c recv of
              Inl e \<Rightarrow> Inl e
            | Inr (Exit r c') \<Rightarrow> Inr (Exit r c')
            | Inr (Continue c') \<Rightarrow> run c' recvs))"

subsection \<open>States of the loop\<close>

text \<open>
  The state in which \<^verbatim>\<open>main\<close> enters the loop, after the handshake; \<^verbatim>\<open>first\<close> tells
  whether \<^verbatim>\<open>random.randint(0, 2)\<close> gave 0, which makes the client play \<^verbatim>\<open>x\<close>.
\<close>

definition initial :: "bool \<Rightarrow> client" where
  "initial first =
     \<lparr>cl_player = (if first then CHR ''x'' else CHR ''o''),
      cl_opp = (if first then CHR ''o'' else CHR ''x''),
      cl_isX = first,
      cl_message = Some '' '',
      cl_message_stack = [],
      cl_message_line = None,
      cl_board = ''eeeeeeeee'',
      cl_cont_counter = 0,
      cl_end = False,
      cl_sent = []\<rparr>"

text \<open>
  A state between two passes in which nothing is buffered and five pops have failed
  already.
\<close>

definition starved :: client where
  "starved = (initial True)\<lparr>cl_message := None, cl_cont_counter := 5\<rparr>"

section \<open>Notions of the specification\<close>

text \<open>
  The eight lines of the specification: the three rows, the three columns and the two
  diagonals of the board, cells numbered row by row from 0.
\<close>

definition spec_lines :: "(nat \<times> nat \<times> nat) list" where
  "spec_lines = [(0, 1, 2), (3, 4, 5), (6, 7, 8),
                 (0, 3, 6), (1, 4, 7), (2, 5, 8),
                 (0, 4, 8), (2, 4, 6)]"

text \<open>\<^verbatim>\<open>has_won(board, player)\<close>: some line holds the mark of \<^verbatim>\<open>player\<close> in its three cells.\<close>

definition has_won :: "board \<Rightarrow> char \<Rightarrow> bool" where
  "has_won board player =
     (\<exists>(i, j, k) \<in> set spec_lines. board ! i = player \<and> board ! j = player \<and> board ! k = player)"

text \<open>What \<^verbatim>\<open>check_win\<close> computes when no read fails.\<close>

definition line_full :: "board \<Rightarrow> pyval \<Rightarrow> nat list \<Rightarrow> bool" where
  "line_full board player l = (\<forall>i \<in> set l. PStr [board ! i] = player)"

definition won :: "board \<Rightarrow> pyval \<Rightarrow> bool" where
  "won board player = (\<exists>l \<in> set win_lines. line_full board player l)"

text \<open>
  What one line adds to \<^verbatim>\<open>evaluate(board)\<close>, from the marks in its three cells, read in the
  order of the line: 100 for three equal marks, 10 for two equal marks next to each other
  and an empty cell, 1 for one mark and two empty cells, with the sign of the mark (plus
  for \<^verbatim>\<open>x\<close>, minus for \<^verbatim>\<open>o\<close>); 0 for anything else, so also for two equal marks around an
  empty cell.
\<close>

definition contribution :: "string \<Rightarrow> int" where
  "contribution cells =
     (let nx = count_list cells (CHR ''x'');
          no = count_list cells (CHR ''o'');
          ne = count_list cells (CHR ''e'')
      in if nx = 3 then 100
         else if no = 3 then - 100
         else if nx = 2 \<and> ne = 1 \<and> cells ! 1 \<noteq> CHR ''e'' then 10
         else if no = 2 \<and> ne = 1 \<and> cells ! 1 \<noteq> CHR ''e'' then - 10
         else if nx = 1 \<and> ne = 2 then 1
         else if no = 1 \<and> ne = 2 then - 1
         else 0)"

text \<open>
  The same with 10 for two equal marks and an empty cell in any arrangement, also
  mark-empty-mark.
\<close>

definition claimed_contribution :: "string \<Rightarrow> int" where
  "claimed_contribution cells =
     (let nx = count_list cells (CHR ''x'');
          no = count_list cells (CHR ''o'');
          ne = count_list cells (CHR ''e'')
      in if nx = 3 then 100
         else if no = 3 then - 100
         else if nx = 2 \<and> ne = 1 then 10
         else if no = 2 \<and> ne = 1 then - 10
         else if nx = 1 \<and> ne = 2 then 1
         else if no = 1 \<and> ne = 2 then - 1
         else 0)"

text \<open>Replacing every \<^verbatim>\<open>x\<close> by \<^verbatim>\<open>o\<close> and every \<^verbatim>\<open>o\<close> by \<^verbatim>\<open>x\<close>.\<close>

definition swap_mark :: "char \<Rightarrow> char" where
  "swap_mark c = (if c = CHR ''x'' then CHR ''o'' else if c = CHR ''o'' then CHR ''x'' else c)"

definition swap_marks :: "board \<Rightarrow> board" where
  "swap_marks board = map swap_mark board"


text \<open>
  The exhaustive search of the specification, with pruning disabled: \<^verbatim>\<open>minimax\<close> of
  \<^verbatim>\<open>tic_tac_toe.py\<close> without \<^verbatim>\<open>alpha\<close>, \<^verbatim>\<open>beta\<close> and the \<^verbatim>\<open>break\<close>, so that every
  candidate move is examined. The board is passed by value; the result is the pair
  \<^verbatim>\<open>(utility, best_move)\<close>.
\<close>

function exhaustive :: "board \<Rightarrow> int \<Rightarrow> bool \<Rightarrow> error + (ext \<times> int)"
  and exhaustive_moves :: "nat list \<Rightarrow> board \<Rightarrow> int \<Rightarrow> bool \<Rightarrow> ext \<Rightarrow> int \<Rightarrow> error + (ext \<times> int)"
where
  "exhaustive board depth isX =
     (case generate_moves board of
        Inl e \<Rightarrow> Inl e
      | Inr move_list \<Rightarrow>
          (case (if depth = 0 \<or> move_list = [] then Inr True
                 else check_win board (PBool isX)) of
             Inl e \<Rightarrow> Inl e
           | Inr True \<Rightarrow>
               (case heuristic board of
                  Inl e \<Rightarrow> Inl e
                | Inr h \<Rightarrow> Inr (Fin h, - 1))
           | Inr False \<Rightarrow>
               exhaustive_moves move_list board depth isX
                 (if isX then NegInf else PosInf) (- 1)))"
| "exhaustive_moves [] board depth isX utility best_move = Inr (utility, best_move)"
| "exhaustive_moves (move # rest) board depth isX utility best_move =
     (case setitem board move (if isX then CHR ''x'' else CHR ''o'') of
        Inl e \<Rightarrow> Inl e
      | Inr board1 \<Rightarrow>
          (case exhaustive board1 (depth - 1) (\<not> isX) of
             Inl e \<Rightarrow> Inl e
           | Inr (test_utility, pos) \<Rightarrow>
               (let pos = int move;
                    best_move' = (if isX then (if test_utility > utility then pos else best_move)
                                  else (if test_utility < utility then pos else best_move));
                    utility' = (if isX then (if test_utility > utility then test_utility else utility)
                                else (if test_utility < utility then test_utility else utility))
                in exhaustive_moves rest board depth isX utility' best_move')))"
  by pat_completeness auto

lemma card_cells_mono:
  "card {i. i < length board \<and> (board ! i = CHR ''e'' \<or> i \<in> set rest)}
     \<le> card {i. i < length board \<and> (board ! i = CHR ''e'' \<or> i \<in> set (move # rest))}"
  by (rule card_mono) auto

text \<open>The measure is that of \<^verbatim>\<open>minimax\<close>.\<close>

termination exhaustive
proof (relation "measures
    [\<lambda>x. case x of
           Inl (board, depth, isX) \<Rightarrow>
             2 * card {i. i < length board \<and> board ! i = CHR ''e''} + 1
         | Inr (moves, board, depth, isX, utility, best_move) \<Rightarrow>
             2 * card {i. i < length board \<and> (board ! i = CHR ''e'' \<or> i \<in> set moves)},
     \<lambda>x. case x of
           Inl _ \<Rightarrow> 0
         | Inr (moves, board, depth, isX, utility, best_move) \<Rightarrow> length moves]",
    goal_cases)
  case 1
  show ?case by simp
next
  case (2 board depth isX ms c)
  have "{i. i < length board \<and> (board ! i = CHR ''e'' \<or> i \<in> set ms)}
      = {i. i < length board \<and> board ! i = CHR ''e''}"
    using generate_moves_sound [OF 2(1)] by auto
  then show ?case by simp
next
  case (3 move rest board depth isX utility best_move b1)
  let ?p = "if isX then CHR ''x'' else CHR ''o''"
  from 3 have lt: "move < length board" and b1: "b1 = board[move := ?p]"
    by (auto simp: setitem_def split: if_splits)
  have "?p \<noteq> CHR ''e''" by simp
  from card_cells_less [OF lt this, of rest] show ?case
    by (simp add: b1)
next
  case (4 move rest board depth isX utility best_move b1 res tu ps xa xb xc)
  from card_cells_mono [of board rest move] show ?case
    by auto
qed

declare exhaustive.simps [simp del]



subsection \<open>Auxiliary notions for the proofs about pruning\<close>

text \<open>
  How the utility returned by a pruned search with the window \<open>(alpha, beta)\<close> relates to
  the exact one: equal inside the window, a bound on the exact one outside.
\<close>

definition agrees :: "ext \<Rightarrow> ext \<Rightarrow> ext \<Rightarrow> ext \<Rightarrow> bool" where
  "agrees alpha beta exact pruned =
     ((pruned \<le> alpha \<longrightarrow> exact \<le> pruned) \<and>
      (alpha < pruned \<and> pruned < beta \<longrightarrow> pruned = exact) \<and>
      (beta \<le> pruned \<longrightarrow> pruned \<le> exact))"

text \<open>The pruned search of a position agrees with the exhaustive one for every window.\<close>

definition node_ok :: "board \<Rightarrow> int \<Rightarrow> bool \<Rightarrow> bool" where
  "node_ok b d isX =
     (\<forall>alpha beta. alpha < beta \<longrightarrow>
        (\<exists>w q W Q. minimax TicTacToe b d alpha beta isX = Inr ((w, q), b) \<and>
                   exhaustive b d isX = Inr (W, Q) \<and> agrees alpha beta W w))"

section \<open>Properties\<close>

subsection \<open>Boards with nine cells: no read fails\<close>

lemma all_cells_total:
  "\<forall>i \<in> set l. i < length board \<Longrightarrow> all_cells board player l = Inr (line_full board player l)"
  by (induction l) (auto simp: getitem_def line_full_def)

lemma any_line_total:
  "\<forall>l \<in> set ls. \<forall>i \<in> set l. i < length board \<Longrightarrow>
     any_line board player ls = Inr (\<exists>l \<in> set ls. line_full board player l)"
  by (induction ls) (auto simp: all_cells_total split: bool.splits)

lemma check_win_total:
  "9 \<le> length board \<Longrightarrow> check_win board player = Inr (won board player)"
  unfolding check_win_def won_def
  by (rule any_line_total) (auto simp: win_lines_def)

lemma scan_cells_total:
  "\<forall>i \<in> set is. i < length board \<Longrightarrow>
     scan_cells board is acc = Inr (acc @ filter (\<lambda>i. board ! i = CHR ''e'') is)"
  by (induction "is" arbitrary: acc) (auto simp: getitem_def)

lemma generate_moves_total:
  "9 \<le> length board \<Longrightarrow>
     generate_moves board =
       Inr (if won board (PStr ''x'') \<or> won board (PStr ''o'') then []
            else filter (\<lambda>i. board ! i = CHR ''e'') [0..<9])"
  by (auto simp: generate_moves_def check_win_total scan_cells_total split: bool.splits)

lemma build_str_total:
  "\<forall>i \<in> set is. i < length board \<Longrightarrow>
     build_str board is s = Inr (s @ map (\<lambda>i. board ! i) is)"
  by (induction "is" arbitrary: s) (auto simp: getitem_def)

lemma score_lines_total:
  "\<forall>l \<in> set ls. \<forall>i \<in> set l. i < length board \<Longrightarrow>
     score_lines board ls score =
       Inr (fold (\<lambda>l. score_line (map (\<lambda>i. board ! i) l)) ls score)"
  by (induction ls arbitrary: score) (auto simp: build_str_total)

lemma heuristic_total:
  "9 \<le> length board \<Longrightarrow>
     heuristic board = Inr (fold (\<lambda>l. score_line (map (\<lambda>i. board ! i) l)) line_index 0)"
  unfolding heuristic_def
  by (rule score_lines_total) (auto simp: line_index_def)

lemma frame_total:
  shows "9 \<le> length board \<longrightarrow> (\<exists>r. minimax v board depth alpha beta isX = Inr (r, board))"
    and "9 \<le> length board \<and> (\<forall>m \<in> set moves. m < length board \<and> board ! m = CHR ''e'') \<longrightarrow>
           (\<exists>r. for_moves v moves board depth alpha beta isX utility best_move = Inr (r, board))"
proof (induct v board depth alpha beta isX and v moves board depth alpha beta isX utility best_move
       rule: minimax_for_moves.induct)
  case (1 v board depth alpha beta isX)
  show ?case
  proof
    assume len: "9 \<le> length board"
    obtain ms where gm: "generate_moves board = Inr ms"
      using generate_moves_total [OF len] by simp
    obtain h where h: "heuristic board = Inr h"
      using heuristic_total [OF len] by simp
    have good: "\<forall>m \<in> set ms. m < length board \<and> board ! m = CHR ''e''"
      using generate_moves_sound [OF gm] by blast
    show "\<exists>r. minimax v board depth alpha beta isX = Inr (r, board)"
    proof (cases v)
      case TicTacToe
      have "\<exists>c. (if depth = 0 \<or> ms = [] then Inr True else check_win board (PBool isX)) = Inr c"
        by (auto simp: check_win_total [OF len])
      then obtain c where c: "(if depth = 0 \<or> ms = [] then Inr True else check_win board (PBool isX)) = Inr c"
        by blast
      show ?thesis
      proof (cases c)
        case True
        with TicTacToe gm c h show ?thesis by (simp add: minimax.simps)
      next
        case False
        hence "c = False" by simp
        from 1(1) [OF TicTacToe gm c this] len good False TicTacToe gm c show ?thesis by (simp add: minimax.simps)
      qed
    next
      case SOA
      have "\<exists>c. (if depth = 0 then Inr True else check_win board (PBool isX)) = Inr c"
        by (auto simp: check_win_total [OF len])
      then obtain c where c: "(if depth = 0 then Inr True else check_win board (PBool isX)) = Inr c"
        by blast
      show ?thesis
      proof (cases c)
        case True
        with SOA c h show ?thesis by (simp add: minimax.simps)
      next
        case False
        hence "c = False" by simp
        from 1(2) [OF SOA c this gm] len good False SOA gm c show ?thesis by (simp add: minimax.simps)
      qed
    qed
  qed
next
  case (2 v board depth alpha beta isX utility best_move)
  show ?case by simp
next
  case (3 v move rest board depth alpha beta isX utility best_move)
  show ?case
  proof
    assume pre: "9 \<le> length board \<and> (\<forall>m \<in> set (move # rest). m < length board \<and> board ! m = CHR ''e'')"
    let ?p = "if isX then CHR ''x'' else CHR ''o''"
    let ?b1 = "board[move := ?p]"
    from pre have lt: "move < length board" and e: "board ! move = CHR ''e''" by auto
    have b1: "setitem board move ?p = Inr ?b1"
      using lt by (simp add: setitem_def)
    from 3(1) [OF b1] pre obtain tu ps where
      mm: "minimax v ?b1 (depth - 1) alpha beta (\<not> isX) = Inr ((tu, ps), ?b1)"
      by auto
    have b3: "setitem ?b1 move (CHR ''e'') = Inr board"
      using lt e by (simp add: setitem_def list_update_same_conv)
    from 3(2) [OF b1 mm refl refl b3 refl refl refl refl refl] pre
    show "\<exists>r. for_moves v (move # rest) board depth alpha beta isX utility best_move = Inr (r, board)"
      by (auto simp: b1 mm b3 Let_def)
  qed
qed

lemma won_bool: "\<not> won board (PBool b)"
  by (simp add: won_def line_full_def win_lines_def)

lemma won_str: "won board (PStr [p]) = has_won board p"
  unfolding won_def line_full_def win_lines_def has_won_def spec_lines_def
  by (simp add: conj_commute conj_left_commute disj_commute)

subsection \<open>The board across a call of \<^verbatim>\<open>minimax\<close>\<close>

text \<open>
  C4: for every nine-cell board, depth, alpha, beta and side, and in both variants of the
  function, \<^verbatim>\<open>minimax\<close> returns (it raises nothing) and the board after the call is the
  board before the call, cell for cell.
\<close>

theorem minimax_board_unchanged:
  "length board = 9 \<Longrightarrow>
     \<exists>utility best_move. minimax v board depth alpha beta isX = Inr ((utility, best_move), board)"
  using frame_total(1) [of board v depth alpha beta isX] by simp

theorem minimax_board_unchanged_witness:
  "length ''xxeeooeee'' = 9 \<and>
     (\<exists>utility best_move.
        minimax SOA ''xxeeooeee'' 100 NegInf PosInf True = Inr ((utility, best_move), ''xxeeooeee''))"
  using minimax_board_unchanged [of "''xxeeooeee''" SOA 100 NegInf PosInf True] by simp

subsection \<open>The move returned by \<^verbatim>\<open>minimax\<close>\<close>

lemma generate_moves_lt9:
  assumes "9 \<le> length board" "generate_moves board = Inr ms" "m \<in> set ms"
  shows "m < 9"
  using assms by (auto simp: generate_moves_total split: if_splits)

lemma best_move_range:
  shows "9 \<le> length board \<longrightarrow>
           (\<forall>u bm b'. minimax v board depth alpha beta isX = Inr ((u, bm), b') \<longrightarrow>
              - 1 \<le> bm \<and> bm < 9)"
    and "9 \<le> length board \<and> (\<forall>m \<in> set moves. m < 9 \<and> board ! m = CHR ''e'') \<and>
           - 1 \<le> best_move \<and> best_move < 9 \<longrightarrow>
           (\<forall>u bm b'. for_moves v moves board depth alpha beta isX utility best_move
                          = Inr ((u, bm), b') \<longrightarrow> - 1 \<le> bm \<and> bm < 9)"
proof (induct v board depth alpha beta isX and v moves board depth alpha beta isX utility best_move
       rule: minimax_for_moves.induct)
  case (1 v board depth alpha beta isX)
  show ?case
  proof (intro impI allI)
    fix u bm b'
    assume len: "9 \<le> length board"
      and res: "minimax v board depth alpha beta isX = Inr ((u, bm), b')"
    obtain ms where gm: "generate_moves board = Inr ms"
      using generate_moves_total [OF len] by simp
    obtain h where h: "heuristic board = Inr h"
      using heuristic_total [OF len] by simp
    have cw: "check_win board (PBool isX) = Inr False"
      by (simp add: check_win_total [OF len] won_bool)
    have good: "\<forall>m \<in> set ms. m < 9 \<and> board ! m = CHR ''e''"
      using generate_moves_sound [OF gm] generate_moves_lt9 [OF len gm] by blast
    show "- 1 \<le> bm \<and> bm < 9"
    proof (cases v)
      case TicTacToe
      show ?thesis
      proof (cases "depth = 0 \<or> ms = []")
        case True
        with res TicTacToe gm h show ?thesis by (auto simp: minimax.simps)
      next
        case False
        with cw have c: "(if depth = 0 \<or> ms = [] then Inr True else check_win board (PBool isX)) = Inr False"
          by simp
        from res TicTacToe gm False cw have
          "for_moves v ms board depth alpha beta isX (if isX then NegInf else PosInf) (- 1) = Inr ((u, bm), b')"
          by (simp add: minimax.simps)
        with 1(1) [OF TicTacToe gm c refl] len good show ?thesis by simp
      qed
    next
      case SOA
      show ?thesis
      proof (cases "depth = 0")
        case True
        with res SOA h show ?thesis by (auto simp: minimax.simps)
      next
        case False
        with cw have c: "(if depth = 0 then Inr True else check_win board (PBool isX)) = Inr False"
          by simp
        from res SOA gm False cw have
          "for_moves v ms board depth alpha beta isX (if isX then NegInf else PosInf) (- 1) = Inr ((u, bm), b')"
          by (simp add: minimax.simps)
        with 1(2) [OF SOA c refl gm] len good show ?thesis by simp
      qed
    qed
  qed
next
  case (2 v board depth alpha beta isX utility best_move)
  show ?case by simp
next
  case (3 v move rest board depth alpha beta isX utility best_move)
  show ?case
  proof (intro impI allI)
    fix u bm b'
    assume pre: "9 \<le> length board \<and> (\<forall>m \<in> set (move # rest). m < 9 \<and> board ! m = CHR ''e'') \<and>
           - 1 \<le> best_move \<and> best_move < 9"
      and res: "for_moves v (move # rest) board depth alpha beta isX utility best_move = Inr ((u, bm), b')"
    let ?p = "if isX then CHR ''x'' else CHR ''o''"
    let ?b1 = "board[move := ?p]"
    from pre have lt: "move < length board" and m9: "move < 9" and e: "board ! move = CHR ''e''" by auto
    have b1: "setitem board move ?p = Inr ?b1"
      using lt by (simp add: setitem_def)
    from frame_total(1) [of ?b1 v "depth - 1" alpha beta "\<not> isX"] pre obtain tu ps where
      mm: "minimax v ?b1 (depth - 1) alpha beta (\<not> isX) = Inr ((tu, ps), ?b1)"
      by auto
    have b3: "setitem ?b1 move (CHR ''e'') = Inr board"
      using lt e by (simp add: setitem_def list_update_same_conv)
    from 3(2) [OF b1 mm refl refl b3 refl refl refl refl refl] pre res m9
    show "- 1 \<le> bm \<and> bm < 9"
      by (auto simp: b1 mm b3 Let_def split: if_splits)
  qed
qed

subsection \<open>The win check on a boolean\<close>

text \<open>
  C10: on every nine-cell board the win check applied to a boolean, as in the cutoff test
  \<^verbatim>\<open>check_win(board, isX)\<close> of \<^verbatim>\<open>minimax\<close>, returns false. So that part of the cutoff
  condition never fires: \<^verbatim>\<open>minimax\<close> cuts off exactly when \<^verbatim>\<open>depth == 0\<close> or, in the
  variant that tests it, the move list is empty; the variant of \<^verbatim>\<open>SOA_TTT.py\<close> cuts off
  exactly when \<^verbatim>\<open>depth == 0\<close>.
\<close>

theorem check_win_bool_false:
  "length board = 9 \<Longrightarrow>
     check_win board (PBool isX) = Inr False \<and>
     (\<exists>move_list h.
        generate_moves board = Inr move_list \<and> heuristic board = Inr h \<and>
        minimax TicTacToe board depth alpha beta isX =
          (if depth = 0 \<or> move_list = [] then Inr ((Fin h, - 1), board)
           else for_moves TicTacToe move_list board depth alpha beta isX
                  (if isX then NegInf else PosInf) (- 1)) \<and>
        minimax SOA board depth alpha beta isX =
          (if depth = 0 then Inr ((Fin h, - 1), board)
           else for_moves SOA move_list board depth alpha beta isX
                  (if isX then NegInf else PosInf) (- 1)))"
proof -
  assume "length board = 9"
  then have len: "9 \<le> length board" by simp
  have cw: "check_win board (PBool isX) = Inr False"
    by (simp add: check_win_total [OF len] won_bool)
  obtain move_list where gm: "generate_moves board = Inr move_list"
    using generate_moves_total [OF len] by simp
  obtain h where h: "heuristic board = Inr h"
    using heuristic_total [OF len] by simp
  have "minimax TicTacToe board depth alpha beta isX =
          (if depth = 0 \<or> move_list = [] then Inr ((Fin h, - 1), board)
           else for_moves TicTacToe move_list board depth alpha beta isX
                  (if isX then NegInf else PosInf) (- 1))"
    by (simp add: minimax.simps gm h cw)
  moreover have "minimax SOA board depth alpha beta isX =
          (if depth = 0 then Inr ((Fin h, - 1), board)
           else for_moves SOA move_list board depth alpha beta isX
                  (if isX then NegInf else PosInf) (- 1))"
    by (simp add: minimax.simps gm h cw)
  ultimately show ?thesis
    using gm h cw by blast
qed

theorem check_win_bool_false_witness:
  "length ''xxxeooeoe'' = 9 \<and> check_win ''xxxeooeoe'' (PBool True) = Inr False"
  using check_win_bool_false [of "''xxxeooeoe''" True] by simp

subsection \<open>The move generator\<close>

text \<open>
  C6: on every nine-cell board in which no line is fully occupied by one mark, the move
  generator returns exactly the indices of the empty cells, in ascending order; on every
  nine-cell board on which either mark has won it returns the empty list, also when empty
  cells remain.
\<close>

theorem generate_moves_spec:
  "length board = 9 \<Longrightarrow>
     (\<not> has_won board (CHR ''x'') \<and> \<not> has_won board (CHR ''o'') \<longrightarrow>
        (\<exists>ms. generate_moves board = Inr ms \<and> sorted ms \<and> distinct ms \<and>
              set ms = {i. i < 9 \<and> board ! i = CHR ''e''})) \<and>
     (has_won board (CHR ''x'') \<or> has_won board (CHR ''o'') \<longrightarrow>
        generate_moves board = Inr [])"
proof -
  assume "length board = 9"
  then have len: "9 \<le> length board" by simp
  have "\<not> has_won board (CHR ''x'') \<and> \<not> has_won board (CHR ''o'') \<longrightarrow>
           (\<exists>ms. generate_moves board = Inr ms \<and> sorted ms \<and> distinct ms \<and>
                 set ms = {i. i < 9 \<and> board ! i = CHR ''e''})"
    by (auto simp: generate_moves_total [OF len] won_str sorted_wrt_filter)
  moreover have "has_won board (CHR ''x'') \<or> has_won board (CHR ''o'') \<longrightarrow>
           generate_moves board = Inr []"
    by (auto simp: generate_moves_total [OF len] won_str)
  ultimately show ?thesis by blast
qed

theorem generate_moves_spec_witness:
  "length ''xoexoeeee'' = 9 \<and> \<not> has_won ''xoexoeeee'' (CHR ''x'') \<and>
   \<not> has_won ''xoexoeeee'' (CHR ''o'') \<and>
   (\<exists>ms. generate_moves ''xoexoeeee'' = Inr ms \<and> sorted ms \<and> distinct ms \<and>
         set ms = {i. i < 9 \<and> ''xoexoeeee'' ! i = CHR ''e''}) \<and>
   generate_moves ''xoexoeeee'' = Inr [2, 5, 6, 7, 8] \<and>
   length ''xxxeooeoe'' = 9 \<and> has_won ''xxxeooeoe'' (CHR ''x'') \<and>
   generate_moves ''xxxeooeoe'' = Inr []"
proof -
  have a: "\<not> has_won ''xoexoeeee'' (CHR ''x'') \<and> \<not> has_won ''xoexoeeee'' (CHR ''o'')"
    by (simp add: has_won_def spec_lines_def)
  have b: "has_won ''xxxeooeoe'' (CHR ''x'')"
    by (simp add: has_won_def spec_lines_def)
  have c: "generate_moves ''xoexoeeee'' = Inr [2, 5, 6, 7, 8]"
    by (simp add: generate_moves_def check_win_def win_lines_def getitem_def upt_rec)
  from generate_moves_spec [of "''xoexoeeee''"] generate_moves_spec [of "''xxxeooeoe''"] a b c
  show ?thesis by simp
qed

subsection \<open>The heuristic\<close>

lemma cell_cases:
  obtains "c = CHR ''x''" | "c = CHR ''o''" | "c = CHR ''e''"
  | "c \<noteq> CHR ''x''" "c \<noteq> CHR ''o''" "c \<noteq> CHR ''e''"
  by blast

lemma score_line_contribution:
  "score_line [a, b, c] score = score + contribution [a, b, c]"
  by (cases a rule: cell_cases; cases b rule: cell_cases; cases c rule: cell_cases)
     (simp_all add: score_line_def row3_def row2_def row1_def contribution_def)

lemma contribution_swap:
  "contribution [swap_mark a, swap_mark b, swap_mark c] = - contribution [a, b, c]"
  by (cases a rule: cell_cases; cases b rule: cell_cases; cases c rule: cell_cases)
     (simp_all add: contribution_def swap_mark_def)


lemma heuristic_sum:
  assumes "9 \<le> length board"
  shows "heuristic board =
     Inr (\<Sum>(i, j, k) \<leftarrow> spec_lines. contribution [board ! i, board ! j, board ! k])"
  by (simp add: heuristic_total [OF assms] line_index_def spec_lines_def score_line_contribution)

lemma heuristic_swap:
  assumes "9 \<le> length board"
  shows "\<exists>s. heuristic board = Inr s \<and> heuristic (swap_marks board) = Inr (- s)"
proof -
  have len: "9 \<le> length (swap_marks board)"
    using assms by (simp add: swap_marks_def)
  have "(\<Sum>(i, j, k) \<leftarrow> spec_lines.
           contribution [swap_marks board ! i, swap_marks board ! j, swap_marks board ! k])
      = - (\<Sum>(i, j, k) \<leftarrow> spec_lines. contribution [board ! i, board ! j, board ! k])"
  proof -
    have nth: "swap_marks board ! i = swap_mark (board ! i)" if "i < 9" for i
      using that assms by (simp add: swap_marks_def)
    show ?thesis
      by (simp add: spec_lines_def nth contribution_swap)
  qed
  then show ?thesis
    by (simp add: heuristic_sum [OF assms] heuristic_sum [OF len])
qed

lemma contribution_mixed:
  assumes "length cells = 3" "CHR ''x'' \<in> set cells" "CHR ''o'' \<in> set cells"
  shows "contribution cells = 0"
proof -
  from assms(1) obtain a b c where cells: "cells = [a, b, c]"
    by (cases cells; cases "tl cells"; cases "tl (tl cells)") auto
  from assms(2,3) show ?thesis
    unfolding cells
    by (cases a rule: cell_cases; cases b rule: cell_cases; cases c rule: cell_cases)
       (simp_all add: contribution_def)
qed

text \<open>
  C3, as amended: on every nine-cell board \<^verbatim>\<open>heuristic\<close> returns the sum, over the eight
  lines, of the contribution of the line: plus or minus 100 for three equal marks, plus or
  minus 10 for mark-mark-empty and empty-mark-mark, plus or minus 1 for one mark and two
  empty cells, and 0 for every other line. A line that reads mark-empty-mark contributes 0,
  and so does a line that holds both marks.
\<close>

theorem heuristic_contributions:
  "length board = 9 \<Longrightarrow>
     heuristic board =
       Inr (\<Sum>(i, j, k) \<leftarrow> spec_lines. contribution [board ! i, board ! j, board ! k]) \<and>
     contribution ''xxx'' = 100 \<and> contribution ''ooo'' = - 100 \<and>
     contribution ''xxe'' = 10 \<and> contribution ''exx'' = 10 \<and> contribution ''xex'' = 0 \<and>
     contribution ''ooe'' = - 10 \<and> contribution ''eoo'' = - 10 \<and> contribution ''oeo'' = 0 \<and>
     contribution ''xee'' = 1 \<and> contribution ''exe'' = 1 \<and> contribution ''eex'' = 1 \<and>
     contribution ''oee'' = - 1 \<and> contribution ''eoe'' = - 1 \<and> contribution ''eeo'' = - 1 \<and>
     (\<forall>cells. length cells = 3 \<and> CHR ''x'' \<in> set cells \<and> CHR ''o'' \<in> set cells \<longrightarrow>
        contribution cells = 0)"
proof -
  assume "length board = 9"
  then have "heuristic board =
       Inr (\<Sum>(i, j, k) \<leftarrow> spec_lines. contribution [board ! i, board ! j, board ! k])"
    using heuristic_sum [of board] by simp
  moreover have "contribution ''xxx'' = 100 \<and> contribution ''ooo'' = - 100 \<and>
     contribution ''xxe'' = 10 \<and> contribution ''exx'' = 10 \<and> contribution ''xex'' = 0 \<and>
     contribution ''ooe'' = - 10 \<and> contribution ''eoo'' = - 10 \<and> contribution ''oeo'' = 0 \<and>
     contribution ''xee'' = 1 \<and> contribution ''exe'' = 1 \<and> contribution ''eex'' = 1 \<and>
     contribution ''oee'' = - 1 \<and> contribution ''eoe'' = - 1 \<and> contribution ''eeo'' = - 1"
    by (simp add: contribution_def)
  ultimately show ?thesis
    using contribution_mixed by blast
qed

theorem heuristic_contributions_witness:
  "length ''xexeoeeee'' = 9 \<and> heuristic ''xexeoeeee'' = Inr 0 \<and>
   length ''xoe'' = 3 \<and> CHR ''x'' \<in> set ''xoe'' \<and> CHR ''o'' \<in> set ''xoe'' \<and>
   contribution ''xoe'' = 0"
proof -
  have len: "length ''xexeoeeee'' = 9" by simp
  have mixed: "length ''xoe'' = 3 \<and> CHR ''x'' \<in> set ''xoe'' \<and> CHR ''o'' \<in> set ''xoe''"
    by simp
  from heuristic_contributions [OF len] mixed have "contribution ''xoe'' = 0"
    by blast
  moreover from heuristic_contributions [OF len] have "heuristic ''xexeoeeee'' = Inr 0"
    by (simp add: spec_lines_def contribution_def)
  ultimately show ?thesis using mixed by simp
qed

text \<open>
  C3 as stated fails: on the board \<^verbatim>\<open>x e x / e e e / e e e\<close> the top row reads
  mark-empty-mark and adds nothing, so \<^verbatim>\<open>heuristic\<close> returns 4 where the stated rule
  gives 14.
\<close>

theorem heuristic_claimed_counterexample:
  "heuristic ''xexeeeeee'' = Inr 4 \<and>
   (\<Sum>(i, j, k) \<leftarrow> spec_lines.
        claimed_contribution [''xexeeeeee'' ! i, ''xexeeeeee'' ! j, ''xexeeeeee'' ! k]) = 14 \<and>
   score_line ''xex'' 0 = 0 \<and> claimed_contribution ''xex'' = 10"
  by (simp add: heuristic_def line_index_def getitem_def score_line_def row3_def row2_def row1_def
      spec_lines_def claimed_contribution_def)

text \<open>
  C9: on every nine-cell board, swapping the marks negates the value of \<^verbatim>\<open>heuristic\<close>.
\<close>

theorem heuristic_antisymmetric:
  "length board = 9 \<Longrightarrow>
     \<exists>s. heuristic board = Inr s \<and> heuristic (swap_marks board) = Inr (- s)"
  using heuristic_swap [of board] by simp

theorem heuristic_antisymmetric_witness:
  "length ''xxeeooeee'' = 9 \<and> swap_marks ''xxeeooeee'' = ''ooeexxeee'' \<and>
   (\<exists>s. heuristic ''xxeeooeee'' = Inr s \<and> heuristic ''ooeexxeee'' = Inr (- s))"
  using heuristic_antisymmetric [of "''xxeeooeee''"]
  by (simp add: swap_marks_def swap_mark_def)

subsection \<open>The protocol client\<close>

lemma iteration_no_line:
  assumes "cl_message_stack c = []" "cl_message c = None"
  shows "iteration c None =
           Inr (Continue (c\<lparr>cl_message_line :=
                              (if cl_cont_counter c > 4 then Some ''No longer receiving messages''
                               else cl_message_line c),
                            cl_cont_counter := cl_cont_counter c + 1\<rparr>))"
  using assms by (simp add: iteration_def)

lemma run_no_line:
  assumes "cl_message_stack c = []" "cl_message c = None" "\<not> cl_end c" "4 < cl_cont_counter c"
  shows "run c (replicate (Suc n) None) =
           Inr (Continue (c\<lparr>cl_message_line := Some ''No longer receiving messages'',
                            cl_cont_counter := cl_cont_counter c + 1 + int n\<rparr>))"
  using assms
proof (induction n arbitrary: c)
  case 0
  then show ?case by (simp add: iteration_no_line)
next
  case (Suc n)
  let ?c = "c\<lparr>cl_message_line := Some ''No longer receiving messages'',
              cl_cont_counter := cl_cont_counter c + 1\<rparr>"
  have "run c (replicate (Suc (Suc n)) None) = run ?c (replicate (Suc n) None)"
    using Suc.prems by (simp add: iteration_no_line)
  also have "\<dots> = Inr (Continue (?c\<lparr>cl_message_line := Some ''No longer receiving messages'',
                            cl_cont_counter := cl_cont_counter ?c + 1 + int n\<rparr>))"
    by (rule Suc.IH) (use Suc.prems in simp_all)
  finally show ?case by (simp add: algebra_simps)
qed

lemma client_move_line:
  assumes len: "length (cl_board c) = 9"
    and cl: "contains ''Client'' line" and n9: "length line \<noteq> 9 \<or> contains ''Tie'' line"
  shows "state_check line = ClientMove \<and>
         (\<exists>move board'. - 1 \<le> move \<and> move < 9 \<and>
            setitem_int (cl_board c) move (cl_player c) = Inr board' \<and>
            process_line c line =
              Inr (Continue (c\<lparr>cl_board := board', cl_sent := cl_sent c @ [move + 1],
                               cl_message_line := None\<rparr>)))"
proof -
  have sc: "state_check line = ClientMove"
    using cl n9 by (auto simp: state_check_def)
  from len have len9: "9 \<le> length (cl_board c)" by simp
  from frame_total(1) [of "cl_board c" TicTacToe 100 NegInf PosInf "cl_isX c"] len9
  obtain u bm where mm:
    "minimax TicTacToe (cl_board c) 100 NegInf PosInf (cl_isX c) = Inr ((u, bm), cl_board c)"
    by auto
  from best_move_range(1) [of "cl_board c" TicTacToe 100 NegInf PosInf "cl_isX c"] len9 mm
  have bm: "- 1 \<le> bm \<and> bm < 9" by blast
  define move where "move = (if contains (cl_board c) ''eeeeeeeee'' then 4 else bm)"
  have mv: "- 1 \<le> move \<and> move < 9"
    using bm by (simp add: move_def del: contains.simps)
  define board' where
    "board' = (cl_board c)[nat (if move < 0 then 9 + move else move) := cl_player c]"
  have set: "setitem_int (cl_board c) move (cl_player c) = Inr board'"
    using mv len by (auto simp: setitem_int_def board'_def Let_def)
  have "process_line c line =
          Inr (Continue (c\<lparr>cl_board := board', cl_sent := cl_sent c @ [move + 1],
                           cl_message_line := None\<rparr>))"
    using set by (cases "contains (cl_board c) ''eeeeeeeee''")
      (simp_all add: process_line_def sc mm move_def del: contains.simps)
  with sc mv set show ?thesis by blast
qed

lemma unmatched_line:
  assumes "\<not> (length line = 9 \<and> \<not> contains ''Tie'' line)"
    and "\<not> contains ''Client'' line" "\<not> contains ''Server'' line"
    and "\<not> contains ''Win'' line" "\<not> contains ''Tie'' line"
    and "\<not> contains ''Disconnecting'' line" "\<not> contains ''Error'' line"
  shows "state_check line = ClientError \<and> process_line c line = Inr (Exit ClientSideError c)"
proof -
  have sc: "state_check line = ClientError"
    using assms unfolding state_check_def by (simp del: contains.simps)
  then show ?thesis
    by (simp add: process_line_def)
qed

text \<open>
  C7, as amended: the state check takes the line \<^verbatim>\<open>123456x8o\<close> as a board, which becomes
  empty at the indices 0 to 5 and 7, \<^verbatim>\<open>x\<close> at 6 and \<^verbatim>\<open>o\<close> at 8; it takes every line that
  contains \<^verbatim>\<open>Client\<close> and is not a nine-character line without \<^verbatim>\<open>Tie\<close> as a request for
  a move, and the client then marks a cell and sends its number; it takes
  \<^verbatim>\<open>Server moved to 5\<close> as a move of the server and puts the opponent's mark at index 4;
  it takes every line that matches none of the rules, such as \<^verbatim>\<open>garbage\<close>, as a client-side
  error and exits.
\<close>

theorem state_check_examples:
  "length (cl_board c) = 9 \<Longrightarrow>
     state_check ''123456x8o'' = Board9 \<and>
     process_line c ''123456x8o'' =
       Inr (Continue (c\<lparr>cl_board := ''eeeeeexeo'', cl_message_line := None\<rparr>)) \<and>
     (\<forall>line. contains ''Client'' line \<and> (length line \<noteq> 9 \<or> contains ''Tie'' line) \<longrightarrow>
        state_check line = ClientMove \<and>
        (\<exists>move board'. - 1 \<le> move \<and> move < 9 \<and>
           setitem_int (cl_board c) move (cl_player c) = Inr board' \<and>
           process_line c line =
             Inr (Continue (c\<lparr>cl_board := board', cl_sent := cl_sent c @ [move + 1],
                              cl_message_line := None\<rparr>)))) \<and>
     state_check ''Server moved to 5'' = SvrMove \<and>
     process_line c ''Server moved to 5'' =
       Inr (Continue (c\<lparr>cl_board := (cl_board c)[4 := cl_opp c], cl_message_line := None\<rparr>)) \<and>
     state_check ''garbage'' = ClientError \<and>
     process_line c ''garbage'' = Inr (Exit ClientSideError c) \<and>
     (\<forall>line. \<not> (length line = 9 \<and> \<not> contains ''Tie'' line) \<and>
        \<not> contains ''Client'' line \<and> \<not> contains ''Server'' line \<and>
        \<not> contains ''Win'' line \<and> \<not> contains ''Tie'' line \<and>
        \<not> contains ''Disconnecting'' line \<and> \<not> contains ''Error'' line \<longrightarrow>
        state_check line = ClientError \<and> process_line c line = Inr (Exit ClientSideError c))"
proof -
  assume len: "length (cl_board c) = 9"
  have a: "state_check ''123456x8o'' = Board9"
    by (simp add: state_check_def)
  have a': "process_line c ''123456x8o'' =
       Inr (Continue (c\<lparr>cl_board := ''eeeeeexeo'', cl_message_line := None\<rparr>))"
    by (simp add: process_line_def a blank_digits_def lower_def lower_char_def upt_rec)
  have b: "state_check ''Server moved to 5'' = SvrMove"
    by (simp add: state_check_def)
  have b': "process_line c ''Server moved to 5'' =
       Inr (Continue (c\<lparr>cl_board := (cl_board c)[4 := cl_opp c], cl_message_line := None\<rparr>))"
    using len by (simp add: process_line_def b int_of_char_def setitem_int_def)
  have d: "state_check ''garbage'' = ClientError"
    by (simp add: state_check_def)
  have d': "process_line c ''garbage'' = Inr (Exit ClientSideError c)"
    by (simp add: process_line_def d)
  have g: "\<forall>line. \<not> (length line = 9 \<and> \<not> contains ''Tie'' line) \<and>
        \<not> contains ''Client'' line \<and> \<not> contains ''Server'' line \<and>
        \<not> contains ''Win'' line \<and> \<not> contains ''Tie'' line \<and>
        \<not> contains ''Disconnecting'' line \<and> \<not> contains ''Error'' line \<longrightarrow>
        state_check line = ClientError \<and> process_line c line = Inr (Exit ClientSideError c)"
    using unmatched_line [of _ c] by blast
  have cm: "\<forall>line. contains ''Client'' line \<and> (length line \<noteq> 9 \<or> contains ''Tie'' line) \<longrightarrow>
        state_check line = ClientMove \<and>
        (\<exists>move board'. - 1 \<le> move \<and> move < 9 \<and>
           setitem_int (cl_board c) move (cl_player c) = Inr board' \<and>
           process_line c line =
             Inr (Continue (c\<lparr>cl_board := board', cl_sent := cl_sent c @ [move + 1],
                              cl_message_line := None\<rparr>)))"
    using client_move_line [OF len] by blast
  from a a' b b' d d' cm g show ?thesis
    by (intro conjI)
qed

theorem state_check_examples_witness:
  "length (cl_board (initial True)) = 9 \<and> contains ''Client'' ''Client move'' \<and>
   length ''Client move'' \<noteq> 9 \<and> state_check ''Client move'' = ClientMove \<and>
   process_line (initial True) ''Server moved to 5'' =
     Inr (Continue ((initial True)\<lparr>cl_board := ''eeeeoeeee'', cl_message_line := None\<rparr>)) \<and>
   \<not> (length ''no such rule'' = 9 \<and> \<not> contains ''Tie'' ''no such rule'') \<and>
   \<not> contains ''Client'' ''no such rule'' \<and> \<not> contains ''Server'' ''no such rule'' \<and>
   \<not> contains ''Win'' ''no such rule'' \<and> \<not> contains ''Tie'' ''no such rule'' \<and>
   \<not> contains ''Disconnecting'' ''no such rule'' \<and> \<not> contains ''Error'' ''no such rule'' \<and>
   state_check ''no such rule'' = ClientError \<and>
   process_line (initial True) ''no such rule'' = Inr (Exit ClientSideError (initial True))"
proof -
  have len: "length (cl_board (initial True)) = 9"
    by (simp add: initial_def)
  have cl: "contains ''Client'' ''Client move'' \<and> length ''Client move'' \<noteq> 9"
    by simp
  have un: "\<not> (length ''no such rule'' = 9 \<and> \<not> contains ''Tie'' ''no such rule'') \<and>
   \<not> contains ''Client'' ''no such rule'' \<and> \<not> contains ''Server'' ''no such rule'' \<and>
   \<not> contains ''Win'' ''no such rule'' \<and> \<not> contains ''Tie'' ''no such rule'' \<and>
   \<not> contains ''Disconnecting'' ''no such rule'' \<and> \<not> contains ''Error'' ''no such rule''"
    by simp
  from state_check_examples [OF len] cl have "state_check ''Client move'' = ClientMove"
    by blast
  moreover from state_check_examples [OF len]
  have "process_line (initial True) ''Server moved to 5'' =
     Inr (Continue ((initial True)\<lparr>cl_board := (cl_board (initial True))[4 := cl_opp (initial True)],
                                     cl_message_line := None\<rparr>))"
    by blast
  moreover from state_check_examples [OF len] un
  have "state_check ''no such rule'' = ClientError \<and>
        process_line (initial True) ''no such rule'' = Inr (Exit ClientSideError (initial True))"
    by blast
  ultimately show ?thesis
    using len cl un by (simp add: initial_def)
qed

text \<open>
  C7 as stated fails: the nine-character line \<^verbatim>\<open>Client go\<close> contains \<^verbatim>\<open>Client\<close>, and the
  state check, whose first test is the length of the line, takes it as a board.
\<close>

theorem state_check_client_counterexample:
  "contains ''Client'' ''Client go'' \<and> state_check ''Client go'' = Board9 \<and>
   process_line (initial True) ''Client go'' =
     Inr (Continue ((initial True)\<lparr>cl_board := ''client go'', cl_message_line := None\<rparr>))"
proof -
  have lo: "lower ''Client go'' = ''client go''"
    by code_simp
  have bl: "blank_digits ''client go'' = ''client go''"
    by (simp add: blank_digits_def upt_rec)
  have sc: "contains ''Client'' ''Client go'' \<and> state_check ''Client go'' = Board9"
    by (simp add: state_check_def)
  show ?thesis
    by (simp add: process_line_def lo bl sc)
qed

text \<open>
  C8: in the state \<^verbatim>\<open>starved\<close> (nothing buffered, five pops failed before) a pass in which
  the read times out sets \<^verbatim>\<open>message_line\<close> to the synthetic line, adds one to the counter
  and goes on to the next pass at \<^verbatim>\<open>continue\<close>: the line is not processed (processing it
  would end the program with the client-side error), and any number of such passes leaves
  the loop running.
\<close>

theorem starved_pass_continues:
  "iteration starved None =
     Inr (Continue (starved\<lparr>cl_message_line := Some ''No longer receiving messages'',
                            cl_cont_counter := 6\<rparr>)) \<and>
   process_line starved ''No longer receiving messages'' = Inr (Exit ClientSideError starved) \<and>
   (\<forall>n. run starved (replicate (Suc n) None) =
          Inr (Continue (starved\<lparr>cl_message_line := Some ''No longer receiving messages'',
                                 cl_cont_counter := 6 + int n\<rparr>)))"
proof -
  have st: "cl_message_stack starved = []" "cl_message starved = None" "\<not> cl_end starved"
    "cl_cont_counter starved = 5"
    by (simp_all add: starved_def initial_def)
  have "iteration starved None =
     Inr (Continue (starved\<lparr>cl_message_line := Some ''No longer receiving messages'',
                            cl_cont_counter := 6\<rparr>))"
    using iteration_no_line [OF st(1,2)] by (simp add: st)
  moreover have "process_line starved ''No longer receiving messages'' =
      Inr (Exit ClientSideError starved)"
    by (simp add: process_line_def state_check_def)
  moreover have "run starved (replicate (Suc n) None) =
          Inr (Continue (starved\<lparr>cl_message_line := Some ''No longer receiving messages'',
                                 cl_cont_counter := 6 + int n\<rparr>))" for n
    using run_no_line [OF st(1,2,3), of n] by (simp add: st)
  ultimately show ?thesis by blast
qed

subsection \<open>Pruning\<close>

text \<open>Facts about the order on utilities: one pass of the loop keeps the invariant.\<close>

lemma agrees_start_max: "U \<le> ut \<Longrightarrow> ut \<le> alpha \<Longrightarrow> alpha < beta \<Longrightarrow> agrees alpha beta U ut"
  by (auto simp: agrees_def)

lemma agrees_start_min: "ut \<le> U \<Longrightarrow> beta \<le> ut \<Longrightarrow> alpha < beta \<Longrightarrow> agrees alpha beta U ut"
  by (auto simp: agrees_def)

lemma max_break:
  assumes "alpha < beta" "U \<le> ut" "ut \<le> alpha" "agrees alpha beta W w"
    and "beta \<le> max (if ut < w then w else ut) alpha"
    and "(if U < W then W else U) \<le> V"
  shows "agrees alpha beta V (if ut < w then w else ut) \<and> ut \<le> (if ut < w then w else ut) \<and> U \<le> V"
  using assms by (auto simp: agrees_def max_def split: if_splits)

lemma max_continue:
  assumes "alpha < beta" "U \<le> ut" "ut \<le> alpha" "agrees alpha beta W w"
    and "\<not> beta \<le> max (if ut < w then w else ut) alpha"
  shows "max (if ut < w then w else ut) alpha < beta \<and>
         (if U < W then W else U) \<le> (if ut < w then w else ut) \<and>
         (if ut < w then w else ut) \<le> max (if ut < w then w else ut) alpha"
  using assms by (auto simp: agrees_def max_def split: if_splits)

lemma max_finish:
  assumes "alpha < beta" "U \<le> ut" "ut \<le> alpha" "agrees alpha beta W w"
    and "\<not> beta \<le> max (if ut < w then w else ut) alpha"
    and "agrees (max (if ut < w then w else ut) alpha) beta V u"
    and "(if ut < w then w else ut) \<le> u" "(if U < W then W else U) \<le> V"
  shows "agrees alpha beta V u \<and> ut \<le> u \<and> U \<le> V"
  using assms by (auto simp: agrees_def max_def split: if_splits)

lemma min_break:
  assumes "alpha < beta" "ut \<le> U" "beta \<le> ut" "agrees alpha beta W w"
    and "min (if w < ut then w else ut) beta \<le> alpha"
    and "V \<le> (if W < U then W else U)"
  shows "agrees alpha beta V (if w < ut then w else ut) \<and> (if w < ut then w else ut) \<le> ut \<and> V \<le> U"
  using assms by (auto simp: agrees_def min_def split: if_splits)

lemma min_continue:
  assumes "alpha < beta" "ut \<le> U" "beta \<le> ut" "agrees alpha beta W w"
    and "\<not> min (if w < ut then w else ut) beta \<le> alpha"
  shows "alpha < min (if w < ut then w else ut) beta \<and>
         (if w < ut then w else ut) \<le> (if W < U then W else U) \<and>
         min (if w < ut then w else ut) beta \<le> (if w < ut then w else ut)"
  using assms by (auto simp: agrees_def min_def split: if_splits)

lemma min_finish:
  assumes "alpha < beta" "ut \<le> U" "beta \<le> ut" "agrees alpha beta W w"
    and "\<not> min (if w < ut then w else ut) beta \<le> alpha"
    and "agrees alpha (min (if w < ut then w else ut) beta) V u"
    and "u \<le> (if w < ut then w else ut)" "V \<le> (if W < U then W else U)"
  shows "agrees alpha beta V u \<and> u \<le> ut \<and> V \<le> U"
  using assms by (auto simp: agrees_def min_def split: if_splits)


lemma for_moves_Cons_eq:
  assumes "move < length board" "board ! move = CHR ''e''"
    and "minimax v (board[move := (if isX then CHR ''x'' else CHR ''o'')]) (depth - 1) alpha beta (\<not> isX)
           = Inr ((w, q), board[move := (if isX then CHR ''x'' else CHR ''o'')])"
  shows "for_moves v (move # rest) board depth alpha beta isX utility best_move =
     (let best_move' = (if isX then (if utility < w then int move else best_move)
                        else (if w < utility then int move else best_move));
          utility' = (if isX then (if utility < w then w else utility)
                      else (if w < utility then w else utility));
          alpha' = (if isX then max utility' alpha else alpha);
          beta' = (if isX then beta else min utility' beta)
      in if beta' \<le> alpha' then Inr ((utility', best_move'), board)
         else for_moves v rest board depth alpha' beta' isX utility' best_move')"
proof -
  let ?p = "if isX then CHR ''x'' else CHR ''o''"
  have b1: "setitem board move ?p = Inr (board[move := ?p])"
    using assms(1) by (simp add: setitem_def)
  have b3: "setitem (board[move := ?p]) move (CHR ''e'') = Inr board"
    using assms(1,2) by (simp add: setitem_def list_update_same_conv)
  show ?thesis
    using assms(3) by (simp add: b1 b3 Let_def)
qed

lemma exhaustive_moves_Cons_eq:
  assumes "move < length board"
    and "exhaustive (board[move := (if isX then CHR ''x'' else CHR ''o'')]) (depth - 1) (\<not> isX) = Inr (W, Q)"
  shows "exhaustive_moves (move # rest) board depth isX utility best_move =
           exhaustive_moves rest board depth isX
             (if isX then (if utility < W then W else utility)
              else (if W < utility then W else utility))
             (if isX then (if utility < W then int move else best_move)
              else (if W < utility then int move else best_move))"
  using assms by (simp add: setitem_def Let_def)

lemma exhaustive_moves_total:
  assumes "\<forall>m \<in> set moves. m < length board \<and>
             (\<exists>W Q. exhaustive (board[m := (if isX then CHR ''x'' else CHR ''o'')]) (depth - 1) (\<not> isX)
                      = Inr (W, Q))"
  shows "\<exists>V bV. exhaustive_moves moves board depth isX U bU = Inr (V, bV) \<and>
                 (if isX then U \<le> V else V \<le> U)"
  using assms
proof (induction moves arbitrary: U bU)
  case Nil
  then show ?case by simp
next
  case (Cons m rest)
  from Cons.prems obtain W Q where lt: "m < length board"
    and ch: "exhaustive (board[m := (if isX then CHR ''x'' else CHR ''o'')]) (depth - 1) (\<not> isX) = Inr (W, Q)"
    by auto
  let ?U = "if isX then (if U < W then W else U) else (if W < U then W else U)"
  let ?b = "if isX then (if U < W then int m else bU) else (if W < U then int m else bU)"
  from Cons.IH [of ?U ?b] Cons.prems obtain V bV where
    r: "exhaustive_moves rest board depth isX ?U ?b = Inr (V, bV)"
    and mono: "if isX then ?U \<le> V else V \<le> ?U"
    by auto
  have "if isX then U \<le> V else V \<le> U"
    using mono by (auto split: if_splits)
  with r show ?case
    by (simp only: exhaustive_moves_Cons_eq [OF lt ch]) blast
qed


lemma node_ok_child:
  assumes "node_ok b d isX"
  shows "\<exists>W Q. exhaustive b d isX = Inr (W, Q)"
proof -
  have "NegInf < PosInf" by (simp add: less_ext_def)
  with assms show ?thesis unfolding node_ok_def by blast
qed

lemma loop_max:
  assumes good: "\<forall>m \<in> set moves. m < length board \<and> board ! m = CHR ''e'' \<and>
                   node_ok (board[m := CHR ''x'']) (depth - 1) False"
    and pre: "alpha < beta" "U \<le> ut" "ut \<le> alpha"
  shows "\<exists>u bm V bV.
           for_moves TicTacToe moves board depth alpha beta True ut best = Inr ((u, bm), board) \<and>
           exhaustive_moves moves board depth True U bU = Inr (V, bV) \<and>
           agrees alpha beta V u \<and> ut \<le> u \<and> U \<le> V"
  using assms
proof (induction moves arbitrary: alpha ut best U bU)
  case Nil
  then show ?case by (simp add: agrees_start_max)
next
  case (Cons m rest)
  let ?b = "board[m := CHR ''x'']"
  from Cons.prems(1) have lt: "m < length board" and e: "board ! m = CHR ''e''"
    and ok: "node_ok ?b (depth - 1) False"
    by auto
  from ok Cons.prems(2) obtain w q W Q where
    mm: "minimax TicTacToe ?b (depth - 1) alpha beta False = Inr ((w, q), ?b)"
    and ex: "exhaustive ?b (depth - 1) False = Inr (W, Q)"
    and ag: "agrees alpha beta W w"
    unfolding node_ok_def by blast
  let ?u1 = "if ut < w then w else ut"
  let ?b1 = "if ut < w then int m else best"
  let ?U1 = "if U < W then W else U"
  let ?B1 = "if U < W then int m else bU"
  have fm: "for_moves TicTacToe (m # rest) board depth alpha beta True ut best =
              (if beta \<le> max ?u1 alpha then Inr ((?u1, ?b1), board)
               else for_moves TicTacToe rest board depth (max ?u1 alpha) beta True ?u1 ?b1)"
    using for_moves_Cons_eq [of m board TicTacToe True depth alpha beta w q rest ut best] lt e mm
    by (simp add: Let_def)
  have em: "exhaustive_moves (m # rest) board depth True U bU =
              exhaustive_moves rest board depth True ?U1 ?B1"
    using exhaustive_moves_Cons_eq [of m board True depth W Q rest U bU] lt ex by simp
  show ?case
  proof (cases "beta \<le> max ?u1 alpha")
    case True
    have "\<forall>m \<in> set rest. m < length board \<and>
             (\<exists>W Q. exhaustive (board[m := (if True then CHR ''x'' else CHR ''o'')]) (depth - 1) (\<not> True)
                      = Inr (W, Q))"
      using Cons.prems(1) node_ok_child by auto
    from exhaustive_moves_total [OF this, of ?U1 ?B1] obtain V bV where
      r: "exhaustive_moves rest board depth True ?U1 ?B1 = Inr (V, bV)" and mono: "?U1 \<le> V"
      by auto
    from max_break [OF Cons.prems(2,3,4) ag True mono]
    have "agrees alpha beta V ?u1 \<and> ut \<le> ?u1 \<and> U \<le> V" .
    with True r show ?thesis
      by (simp only: fm em if_True) blast
  next
    case False
    from max_continue [OF Cons.prems(2,3,4) ag False]
    have p: "max ?u1 alpha < beta" "?U1 \<le> ?u1" "?u1 \<le> max ?u1 alpha"
      by blast+
    have good': "\<forall>m \<in> set rest. m < length board \<and> board ! m = CHR ''e'' \<and>
                   node_ok (board[m := CHR ''x'']) (depth - 1) False"
      using Cons.prems(1) by simp
    from Cons.IH [OF good' p, of ?b1 ?B1] obtain u bm V bV where
      r1: "for_moves TicTacToe rest board depth (max ?u1 alpha) beta True ?u1 ?b1 = Inr ((u, bm), board)"
      and r2: "exhaustive_moves rest board depth True ?U1 ?B1 = Inr (V, bV)"
      and ag': "agrees (max ?u1 alpha) beta V u" and m1: "?u1 \<le> u" and m2: "?U1 \<le> V"
      by blast
    from max_finish [OF Cons.prems(2,3,4) ag False ag' m1 m2]
    have "agrees alpha beta V u \<and> ut \<le> u \<and> U \<le> V" .
    with False r1 r2 show ?thesis
      by (simp only: fm em if_False) blast
  qed
qed


lemma loop_min:
  assumes good: "\<forall>m \<in> set moves. m < length board \<and> board ! m = CHR ''e'' \<and>
                   node_ok (board[m := CHR ''o'']) (depth - 1) True"
    and pre: "alpha < beta" "ut \<le> U" "beta \<le> ut"
  shows "\<exists>u bm V bV.
           for_moves TicTacToe moves board depth alpha beta False ut best = Inr ((u, bm), board) \<and>
           exhaustive_moves moves board depth False U bU = Inr (V, bV) \<and>
           agrees alpha beta V u \<and> u \<le> ut \<and> V \<le> U"
  using assms
proof (induction moves arbitrary: beta ut best U bU)
  case Nil
  then show ?case by (simp add: agrees_start_min)
next
  case (Cons m rest)
  let ?b = "board[m := CHR ''o'']"
  from Cons.prems(1) have lt: "m < length board" and e: "board ! m = CHR ''e''"
    and ok: "node_ok ?b (depth - 1) True"
    by auto
  from ok Cons.prems(2) obtain w q W Q where
    mm: "minimax TicTacToe ?b (depth - 1) alpha beta True = Inr ((w, q), ?b)"
    and ex: "exhaustive ?b (depth - 1) True = Inr (W, Q)"
    and ag: "agrees alpha beta W w"
    unfolding node_ok_def by blast
  let ?u1 = "if w < ut then w else ut"
  let ?b1 = "if w < ut then int m else best"
  let ?U1 = "if W < U then W else U"
  let ?B1 = "if W < U then int m else bU"
  have fm: "for_moves TicTacToe (m # rest) board depth alpha beta False ut best =
              (if min ?u1 beta \<le> alpha then Inr ((?u1, ?b1), board)
               else for_moves TicTacToe rest board depth alpha (min ?u1 beta) False ?u1 ?b1)"
    using for_moves_Cons_eq [of m board TicTacToe False depth alpha beta w q rest ut best] lt e mm
    by (simp add: Let_def)
  have em: "exhaustive_moves (m # rest) board depth False U bU =
              exhaustive_moves rest board depth False ?U1 ?B1"
    using exhaustive_moves_Cons_eq [of m board False depth W Q rest U bU] lt ex by simp
  show ?case
  proof (cases "min ?u1 beta \<le> alpha")
    case True
    have "\<forall>m \<in> set rest. m < length board \<and>
             (\<exists>W Q. exhaustive (board[m := (if False then CHR ''x'' else CHR ''o'')]) (depth - 1) (\<not> False)
                      = Inr (W, Q))"
      using Cons.prems(1) node_ok_child by auto
    from exhaustive_moves_total [OF this, of ?U1 ?B1] obtain V bV where
      r: "exhaustive_moves rest board depth False ?U1 ?B1 = Inr (V, bV)" and mono: "V \<le> ?U1"
      by auto
    from min_break [OF Cons.prems(2,3,4) ag True mono]
    have "agrees alpha beta V ?u1 \<and> ?u1 \<le> ut \<and> V \<le> U" .
    with True r show ?thesis
      by (simp only: fm em if_True) blast
  next
    case False
    from min_continue [OF Cons.prems(2,3,4) ag False]
    have p: "alpha < min ?u1 beta" "?u1 \<le> ?U1" "min ?u1 beta \<le> ?u1"
      by blast+
    have good': "\<forall>m \<in> set rest. m < length board \<and> board ! m = CHR ''e'' \<and>
                   node_ok (board[m := CHR ''o'']) (depth - 1) True"
      using Cons.prems(1) by simp
    from Cons.IH [OF good' p, of ?b1 ?B1] obtain u bm V bV where
      r1: "for_moves TicTacToe rest board depth alpha (min ?u1 beta) False ?u1 ?b1 = Inr ((u, bm), board)"
      and r2: "exhaustive_moves rest board depth False ?U1 ?B1 = Inr (V, bV)"
      and ag': "agrees alpha (min ?u1 beta) V u" and m1: "u \<le> ?u1" and m2: "V \<le> ?U1"
      by blast
    from min_finish [OF Cons.prems(2,3,4) ag False ag' m1 m2]
    have "agrees alpha beta V u \<and> u \<le> ut \<and> V \<le> U" .
    with False r1 r2 show ?thesis
      by (simp only: fm em if_False) blast
  qed
qed

lemma count_list_update_less:
  "m < length b \<Longrightarrow> b ! m = e \<Longrightarrow> p \<noteq> e \<Longrightarrow> count_list (b[m := p]) e < count_list b e"
proof (induction b arbitrary: m)
  case Nil
  then show ?case by simp
next
  case (Cons a b)
  then show ?case by (cases m) auto
qed

lemma node_ok_all:
  "9 \<le> length board \<Longrightarrow> node_ok board depth isX"
proof (induction board arbitrary: depth isX rule: measure_induct_rule [where f = "\<lambda>b. count_list b (CHR ''e'')"])
  case (less board depth isX)
  note len = less.prems
  obtain ms where gm: "generate_moves board = Inr ms"
    using generate_moves_total [OF len] by simp
  obtain h where h: "heuristic board = Inr h"
    using heuristic_total [OF len] by simp
  have cw: "check_win board (PBool s) = Inr False" for s
    by (simp add: check_win_total [OF len] won_bool)
  have child: "node_ok (board[m := p]) (depth - 1) (\<not> isX)"
    if "m \<in> set ms" "p \<noteq> CHR ''e''" for m p
  proof -
    from generate_moves_sound [OF gm that(1)] that(2)
    have "count_list (board[m := p]) (CHR ''e'') < count_list board (CHR ''e'')"
      by (simp add: count_list_update_less)
    moreover have "9 \<le> length (board[m := p])" using len by simp
    ultimately show ?thesis
      using less.IH [of "board[m := p]" "depth - 1" "\<not> isX"] by simp
  qed
  show ?case
    unfolding node_ok_def
  proof (intro allI impI)
    fix alpha beta :: ext
    assume ab: "alpha < beta"
    show "\<exists>w q W Q. minimax TicTacToe board depth alpha beta isX = Inr ((w, q), board) \<and>
                     exhaustive board depth isX = Inr (W, Q) \<and> agrees alpha beta W w"
    proof (cases "depth = 0 \<or> ms = []")
      case True
      then have "minimax TicTacToe board depth alpha beta isX = Inr ((Fin h, - 1), board)"
        and "exhaustive board depth isX = Inr (Fin h, - 1)"
        by (auto simp: minimax.simps exhaustive.simps gm h)
      moreover have "agrees alpha beta (Fin h) (Fin h)"
        by (simp add: agrees_def)
      ultimately show ?thesis by blast
    next
      case False
      show ?thesis
      proof (cases isX)
        case True
        have good: "\<forall>m \<in> set ms. m < length board \<and> board ! m = CHR ''e'' \<and>
                      node_ok (board[m := CHR ''x'']) (depth - 1) False"
          using generate_moves_sound [OF gm] child [of _ "CHR ''x''"] True by auto
        have lo: "NegInf \<le> NegInf" "NegInf \<le> alpha"
          by (simp_all add: less_eq_ext_def)
        from loop_max [OF good ab lo, of "- 1" "- 1"] False True show ?thesis
          by (simp add: minimax.simps exhaustive.simps gm cw) blast
      next
        case isO: False
        have good: "\<forall>m \<in> set ms. m < length board \<and> board ! m = CHR ''e'' \<and>
                      node_ok (board[m := CHR ''o'']) (depth - 1) True"
          using generate_moves_sound [OF gm] child [of _ "CHR ''o''"] isO by auto
        have hi: "PosInf \<le> PosInf" "beta \<le> PosInf"
          by (cases beta; simp add: less_eq_ext_def)+
        from loop_min [OF good ab hi, of "- 1" "- 1"] False isO show ?thesis
          by (simp add: minimax.simps exhaustive.simps gm cw) blast
      qed
    qed
  qed
qed


lemma exhaustive_moves_finite:
  assumes "\<forall>m \<in> set moves. m < length board \<and>
             (\<forall>W Q. exhaustive (board[m := (if isX then CHR ''x'' else CHR ''o'')]) (depth - 1) (\<not> isX)
                      = Inr (W, Q) \<longrightarrow> (\<exists>h. W = Fin h))"
    and "exhaustive_moves moves board depth isX U bU = Inr (V, bV)"
    and "(moves \<noteq> [] \<and> U = (if isX then NegInf else PosInf)) \<or> (\<exists>h. U = Fin h)"
  shows "\<exists>h. V = Fin h"
  using assms
proof (induction moves arbitrary: U bU)
  case Nil
  then show ?case by simp
next
  case (Cons m rest)
  let ?b = "board[m := (if isX then CHR ''x'' else CHR ''o'')]"
  from Cons.prems(1) have lt: "m < length board" by simp
  from Cons.prems(2) lt obtain W Q where ex: "exhaustive ?b (depth - 1) (\<not> isX) = Inr (W, Q)"
    by (auto simp: setitem_def split: sum.splits)
  with Cons.prems(1) obtain h where W: "W = Fin h" by auto
  let ?U = "if isX then (if U < W then W else U) else (if W < U then W else U)"
  let ?B = "if isX then (if U < W then int m else bU) else (if W < U then int m else bU)"
  have r: "exhaustive_moves rest board depth isX ?U ?B = Inr (V, bV)"
    using Cons.prems(2) by (simp only: exhaustive_moves_Cons_eq [OF lt ex])
  have "\<exists>h. ?U = Fin h"
    using Cons.prems(3) W by (cases isX) (auto simp: less_ext_def)
  with Cons.IH [OF _ r] Cons.prems(1) show ?case by auto
qed

lemma exhaustive_finite:
  "9 \<le> length board \<Longrightarrow> exhaustive board depth isX = Inr (W, Q) \<Longrightarrow> \<exists>h. W = Fin h"
proof (induction board arbitrary: depth isX W Q
       rule: measure_induct_rule [where f = "\<lambda>b. count_list b (CHR ''e'')"])
  case (less board depth isX W Q)
  note len = less.prems(1)
  obtain ms where gm: "generate_moves board = Inr ms"
    using generate_moves_total [OF len] by simp
  obtain h where h: "heuristic board = Inr h"
    using heuristic_total [OF len] by simp
  have cw: "check_win board (PBool s) = Inr False" for s
    by (simp add: check_win_total [OF len] won_bool)
  show ?case
  proof (cases "depth = 0 \<or> ms = []")
    case True
    with less.prems(2) show ?thesis
      by (auto simp: exhaustive.simps gm h)
  next
    case False
    let ?p = "if isX then CHR ''x'' else CHR ''o''"
    have child: "\<forall>m \<in> set ms. m < length board \<and>
             (\<forall>W Q. exhaustive (board[m := ?p]) (depth - 1) (\<not> isX) = Inr (W, Q) \<longrightarrow> (\<exists>h. W = Fin h))"
    proof (intro ballI conjI allI impI)
      fix m W Q
      assume m: "m \<in> set ms"
      from generate_moves_sound [OF gm m] show "m < length board" by simp
      assume ex: "exhaustive (board[m := ?p]) (depth - 1) (\<not> isX) = Inr (W, Q)"
      from generate_moves_sound [OF gm m]
      have "count_list (board[m := ?p]) (CHR ''e'') < count_list board (CHR ''e'')"
        by (simp add: count_list_update_less)
      moreover have "9 \<le> length (board[m := ?p])" using len by simp
      ultimately show "\<exists>h. W = Fin h"
        using less.IH [of "board[m := ?p]" "depth - 1" "\<not> isX" W Q] ex by simp
    qed
    from less.prems(2) False have
      "exhaustive_moves ms board depth isX (if isX then NegInf else PosInf) (- 1) = Inr (W, Q)"
      by (simp add: exhaustive.simps gm cw)
    from exhaustive_moves_finite [OF child this] False show ?thesis by simp
  qed
qed

lemma root_max_step:
  assumes "agrees ut PosInf W w" "W \<noteq> PosInf" "ut \<noteq> PosInf"
  shows "(if ut < w then w else ut) = (if ut < W then W else ut) \<and> (ut < w \<longleftrightarrow> ut < W) \<and>
         max (if ut < w then w else ut) ut = (if ut < w then w else ut) \<and>
         \<not> PosInf \<le> (if ut < w then w else ut) \<and> (if ut < w then w else ut) \<noteq> PosInf"
  using assms
  by (cases ut; cases w; cases W) (auto simp: agrees_def less_ext_def less_eq_ext_def max_def)

lemma root_min_step:
  assumes "agrees NegInf ut W w" "W \<noteq> NegInf" "ut \<noteq> NegInf"
  shows "(if w < ut then w else ut) = (if W < ut then W else ut) \<and> (w < ut \<longleftrightarrow> W < ut) \<and>
         min (if w < ut then w else ut) ut = (if w < ut then w else ut) \<and>
         \<not> (if w < ut then w else ut) \<le> NegInf \<and> (if w < ut then w else ut) \<noteq> NegInf"
  using assms
  by (cases ut; cases w; cases W) (auto simp: agrees_def less_ext_def less_eq_ext_def min_def)


lemma root_max:
  assumes "\<forall>m \<in> set moves. m < length board \<and> board ! m = CHR ''e'' \<and> 9 \<le> length board"
    and "ut \<noteq> PosInf"
  shows "\<exists>r. for_moves TicTacToe moves board depth ut PosInf True ut best = Inr (r, board) \<and>
             exhaustive_moves moves board depth True ut best = Inr r"
  using assms
proof (induction moves arbitrary: ut best)
  case Nil
  then show ?case by simp
next
  case (Cons m rest)
  let ?b = "board[m := CHR ''x'']"
  from Cons.prems(1) have lt: "m < length board" and e: "board ! m = CHR ''e''"
    and len: "9 \<le> length ?b"
    by auto
  have win: "ut < PosInf"
    using Cons.prems(2) by (cases ut) (simp_all add: less_ext_def)
  from node_ok_all [OF len, of "depth - 1" False] win obtain w q W Q where
    mm: "minimax TicTacToe ?b (depth - 1) ut PosInf False = Inr ((w, q), ?b)"
    and ex: "exhaustive ?b (depth - 1) False = Inr (W, Q)"
    and ag: "agrees ut PosInf W w"
    unfolding node_ok_def by blast
  from exhaustive_finite [OF len ex] have fin: "W \<noteq> PosInf" by auto
  note st = root_max_step [OF ag fin Cons.prems(2)]
  let ?u1 = "if ut < w then w else ut"
  let ?b1 = "if ut < w then int m else best"
  have fm0: "for_moves TicTacToe (m # rest) board depth ut PosInf True ut best =
              (if PosInf \<le> max ?u1 ut then Inr ((?u1, ?b1), board)
               else for_moves TicTacToe rest board depth (max ?u1 ut) PosInf True ?u1 ?b1)"
    using for_moves_Cons_eq [of m board TicTacToe True depth ut PosInf w q rest ut best] lt e mm
    by (simp add: Let_def)
  from st have a: "max ?u1 ut = ?u1" "\<not> PosInf \<le> ?u1" by blast+
  have fm: "for_moves TicTacToe (m # rest) board depth ut PosInf True ut best =
              for_moves TicTacToe rest board depth ?u1 PosInf True ?u1 ?b1"
    by (simp only: fm0 a if_False)
  have em0: "exhaustive_moves (m # rest) board depth True ut best =
              exhaustive_moves rest board depth True
                (if ut < W then W else ut) (if ut < W then int m else best)"
    using exhaustive_moves_Cons_eq [of m board True depth W Q rest ut best] lt ex by simp
  from st have b: "(if ut < W then W else ut) = ?u1" "(if ut < W then int m else best) = ?b1"
    by auto
  have em: "exhaustive_moves (m # rest) board depth True ut best =
              exhaustive_moves rest board depth True ?u1 ?b1"
    by (simp only: em0 b)
  from st have "?u1 \<noteq> PosInf" by blast
  from Cons.IH [OF _ this, of ?b1] Cons.prems(1) show ?case
    by (simp only: fm em) simp
qed

lemma root_min:
  assumes "\<forall>m \<in> set moves. m < length board \<and> board ! m = CHR ''e'' \<and> 9 \<le> length board"
    and "ut \<noteq> NegInf"
  shows "\<exists>r. for_moves TicTacToe moves board depth NegInf ut False ut best = Inr (r, board) \<and>
             exhaustive_moves moves board depth False ut best = Inr r"
  using assms
proof (induction moves arbitrary: ut best)
  case Nil
  then show ?case by simp
next
  case (Cons m rest)
  let ?b = "board[m := CHR ''o'']"
  from Cons.prems(1) have lt: "m < length board" and e: "board ! m = CHR ''e''"
    and len: "9 \<le> length ?b"
    by auto
  have win: "NegInf < ut"
    using Cons.prems(2) by (cases ut) (simp_all add: less_ext_def)
  from node_ok_all [OF len, of "depth - 1" True] win obtain w q W Q where
    mm: "minimax TicTacToe ?b (depth - 1) NegInf ut True = Inr ((w, q), ?b)"
    and ex: "exhaustive ?b (depth - 1) True = Inr (W, Q)"
    and ag: "agrees NegInf ut W w"
    unfolding node_ok_def by blast
  from exhaustive_finite [OF len ex] have fin: "W \<noteq> NegInf" by auto
  note st = root_min_step [OF ag fin Cons.prems(2)]
  let ?u1 = "if w < ut then w else ut"
  let ?b1 = "if w < ut then int m else best"
  have fm0: "for_moves TicTacToe (m # rest) board depth NegInf ut False ut best =
              (if min ?u1 ut \<le> NegInf then Inr ((?u1, ?b1), board)
               else for_moves TicTacToe rest board depth NegInf (min ?u1 ut) False ?u1 ?b1)"
    using for_moves_Cons_eq [of m board TicTacToe False depth NegInf ut w q rest ut best] lt e mm
    by (simp add: Let_def)
  from st have a: "min ?u1 ut = ?u1" "\<not> ?u1 \<le> NegInf" by blast+
  have fm: "for_moves TicTacToe (m # rest) board depth NegInf ut False ut best =
              for_moves TicTacToe rest board depth NegInf ?u1 False ?u1 ?b1"
    by (simp only: fm0 a if_False)
  have em0: "exhaustive_moves (m # rest) board depth False ut best =
              exhaustive_moves rest board depth False
                (if W < ut then W else ut) (if W < ut then int m else best)"
    using exhaustive_moves_Cons_eq [of m board False depth W Q rest ut best] lt ex by simp
  from st have b: "(if W < ut then W else ut) = ?u1" "(if W < ut then int m else best) = ?b1"
    by auto
  have em: "exhaustive_moves (m # rest) board depth False ut best =
              exhaustive_moves rest board depth False ?u1 ?b1"
    by (simp only: em0 b)
  from st have "?u1 \<noteq> NegInf" by blast
  from Cons.IH [OF _ this, of ?b1] Cons.prems(1) show ?case
    by (simp only: fm em) simp
qed

lemma pruned_eq_exhaustive:
  assumes len: "9 \<le> length board"
  shows "\<exists>r. exhaustive board depth isX = Inr r \<and>
             minimax TicTacToe board depth NegInf PosInf isX = Inr (r, board)"
proof -
  obtain ms where gm: "generate_moves board = Inr ms"
    using generate_moves_total [OF len] by simp
  obtain h where h: "heuristic board = Inr h"
    using heuristic_total [OF len] by simp
  have cw: "check_win board (PBool s) = Inr False" for s
    by (simp add: check_win_total [OF len] won_bool)
  have good: "\<forall>m \<in> set ms. m < length board \<and> board ! m = CHR ''e'' \<and> 9 \<le> length board"
    using generate_moves_sound [OF gm] len by blast
  show ?thesis
  proof (cases "depth = 0 \<or> ms = []")
    case True
    then show ?thesis
      by (auto simp: minimax.simps exhaustive.simps gm h)
  next
    case False
    show ?thesis
    proof (cases isX)
      case True
      from root_max [OF good, of NegInf depth "- 1"] False True show ?thesis
        by (simp add: minimax.simps exhaustive.simps gm cw) blast
    next
      case isO: False
      from root_min [OF good, of PosInf depth "- 1"] False isO show ?thesis
        by (simp add: minimax.simps exhaustive.simps gm cw) blast
    qed
  qed
qed

text \<open>
  C5: for every nine-cell board, depth and side, the search of \<^verbatim>\<open>tic_tac_toe.py\<close> started
  with \<^verbatim>\<open>alpha = -inf\<close> and \<^verbatim>\<open>beta = inf\<close> returns the same pair \<^verbatim>\<open>(utility, best_move)\<close>
  as the exhaustive search without pruning (and both return).
\<close>

theorem pruning_keeps_result:
  "length board = 9 \<Longrightarrow>
     \<exists>r. exhaustive board depth isX = Inr r \<and>
         minimax TicTacToe board depth NegInf PosInf isX = Inr (r, board)"
  using pruned_eq_exhaustive [of board depth isX] by simp

theorem pruning_keeps_result_witness:
  "length ''xxeeooeee'' = 9 \<and>
   (\<exists>r. exhaustive ''xxeeooeee'' 100 True = Inr r \<and>
        minimax TicTacToe ''xxeeooeee'' 100 NegInf PosInf True = Inr (r, ''xxeeooeee''))"
  using pruning_keeps_result [of "''xxeeooeee''" 100 True] by simp

subsection \<open>The result of \<^verbatim>\<open>minimax\<close>\<close>

lemma ttt_loop_result:
  assumes good: "\<forall>m \<in> set moves. m < length board \<and> board ! m = CHR ''e'' \<and>
                   (\<forall>a c w q b'. minimax TicTacToe (board[m := (if isX then CHR ''x'' else CHR ''o'')])
                                    (depth - 1) a c (\<not> isX) = Inr ((w, q), b') \<longrightarrow> (\<exists>h. w = Fin h))"
    and len: "9 \<le> length board"
    and res: "for_moves TicTacToe moves board depth alpha beta isX ut best = Inr ((u, bm), b')"
    and start: "(moves \<noteq> [] \<and> ut = (if isX then NegInf else PosInf)) \<or> (\<exists>h. ut = Fin h)"
  shows "(\<exists>h. u = Fin h) \<and> (bm \<in> int ` set moves \<or> ((\<exists>h. ut = Fin h) \<and> bm = best))"
  using good res start
proof (induction moves arbitrary: alpha beta ut best)
  case Nil
  then show ?case by simp
next
  case (Cons m rest)
  let ?p = "if isX then CHR ''x'' else CHR ''o''"
  let ?b = "board[m := ?p]"
  from Cons.prems(1) have lt: "m < length board" and e: "board ! m = CHR ''e''" by auto
  have "9 \<le> length ?b" using len by simp
  from frame_total(1) [of ?b TicTacToe "depth - 1" alpha beta "\<not> isX"] this obtain w q where
    mm: "minimax TicTacToe ?b (depth - 1) alpha beta (\<not> isX) = Inr ((w, q), ?b)"
    by auto
  with Cons.prems(1) have "\<exists>h. w = Fin h" by (simp del: ex_simps) blast
  then obtain hw where w: "w = Fin hw" by blast
  let ?b1 = "if isX then (if ut < w then int m else best) else (if w < ut then int m else best)"
  let ?u1 = "if isX then (if ut < w then w else ut) else (if w < ut then w else ut)"
  let ?a1 = "if isX then max ?u1 alpha else alpha"
  let ?c1 = "if isX then beta else min ?u1 beta"
  have fm: "for_moves TicTacToe (m # rest) board depth alpha beta isX ut best =
              (if ?c1 \<le> ?a1 then Inr ((?u1, ?b1), board)
               else for_moves TicTacToe rest board depth ?a1 ?c1 isX ?u1 ?b1)"
    by (simp only: for_moves_Cons_eq [OF lt e mm] Let_def)
  have u1: "\<exists>h. ?u1 = Fin h"
    using Cons.prems(3) w by (cases isX) (auto simp: less_ext_def)
  have b1: "?b1 = int m \<or> ((\<exists>h. ut = Fin h) \<and> ?b1 = best)"
    using Cons.prems(3) w by (cases isX) (auto simp: less_ext_def)
  show ?case
  proof (cases "?c1 \<le> ?a1")
    case True
    with Cons.prems(2) have "u = ?u1" "bm = ?b1"
      by (simp_all only: fm if_True sum.inject prod.inject)
    with u1 b1 show ?thesis by auto
  next
    case False
    with Cons.prems(2) have
      r: "for_moves TicTacToe rest board depth ?a1 ?c1 isX ?u1 ?b1 = Inr ((u, bm), b')"
      by (simp only: fm if_False)
    from Cons.IH [OF _ r] Cons.prems(1) u1
    have "(\<exists>h. u = Fin h) \<and> (bm \<in> int ` set rest \<or> bm = ?b1)"
      by auto
    with b1 show ?thesis by auto
  qed
qed

lemma ttt_result:
  "9 \<le> length board \<Longrightarrow> minimax TicTacToe board depth alpha beta isX = Inr ((u, bm), b') \<Longrightarrow>
     \<exists>ms h. generate_moves board = Inr ms \<and> heuristic board = Inr h \<and>
       (if depth = 0 \<or> ms = [] then u = Fin h \<and> bm = - 1
        else (\<exists>w. u = Fin w) \<and> bm \<in> int ` set ms)"
proof (induction board arbitrary: depth alpha beta isX u bm b'
       rule: measure_induct_rule [where f = "\<lambda>b. count_list b (CHR ''e'')"])
  case (less board depth alpha beta isX u bm b')
  note len = less.prems(1)
  obtain ms where gm: "generate_moves board = Inr ms"
    using generate_moves_total [OF len] by simp
  obtain h where h: "heuristic board = Inr h"
    using heuristic_total [OF len] by simp
  have cw: "check_win board (PBool s) = Inr False" for s
    by (simp add: check_win_total [OF len] won_bool)
  show ?case
  proof (cases "depth = 0 \<or> ms = []")
    case True
    with less.prems(2) gm h show ?thesis
      by (auto simp: minimax.simps)
  next
    case False
    let ?p = "if isX then CHR ''x'' else CHR ''o''"
    have child: "\<forall>m \<in> set ms. m < length board \<and> board ! m = CHR ''e'' \<and>
                   (\<forall>a c w q b'. minimax TicTacToe (board[m := ?p]) (depth - 1) a c (\<not> isX)
                        = Inr ((w, q), b') \<longrightarrow> (\<exists>h. w = Fin h))"
    proof (intro ballI conjI allI impI)
      fix m a c w q b'
      assume m: "m \<in> set ms"
      from generate_moves_sound [OF gm m] show "m < length board" "board ! m = CHR ''e''" by simp_all
      assume mm: "minimax TicTacToe (board[m := ?p]) (depth - 1) a c (\<not> isX) = Inr ((w, q), b')"
      from generate_moves_sound [OF gm m]
      have "count_list (board[m := ?p]) (CHR ''e'') < count_list board (CHR ''e'')"
        by (simp add: count_list_update_less)
      moreover have "9 \<le> length (board[m := ?p])" using len by simp
      ultimately show "\<exists>h. w = Fin h"
        using less.IH [of "board[m := ?p]" "depth - 1" a c "\<not> isX" w q b'] mm
        by (auto split: if_splits)
    qed
    from less.prems(2) False have
      "for_moves TicTacToe ms board depth alpha beta isX (if isX then NegInf else PosInf) (- 1)
         = Inr ((u, bm), b')"
      by (simp add: minimax.simps gm cw)
    from ttt_loop_result [OF child len this] False
    have "(\<exists>w. u = Fin w) \<and> bm \<in> int ` set ms"
      by (cases isX) auto
    with False gm h show ?thesis by simp
  qed
qed

text \<open>
  In \<^verbatim>\<open>tic_tac_toe.py\<close> and \<^verbatim>\<open>TTT_Client.py\<close>, on every nine-cell board: \<^verbatim>\<open>minimax\<close> returns
  the value of \<^verbatim>\<open>heuristic\<close> and the move \<^verbatim>\<open>-1\<close> when \<^verbatim>\<open>depth == 0\<close> or there is no legal
  move, and otherwise a finite utility and one of the legal moves.
\<close>

lemma minimax_tictactoe_result:
  assumes "length board = 9"
  shows "\<exists>u bm ms h.
           minimax TicTacToe board depth alpha beta isX = Inr ((u, bm), board) \<and>
           generate_moves board = Inr ms \<and> heuristic board = Inr h \<and>
           (if depth = 0 \<or> ms = [] then u = Fin h \<and> bm = - 1
            else (\<exists>w. u = Fin w) \<and> 0 \<le> bm \<and> bm < 9 \<and> bm \<in> int ` set ms)"
proof -
  from assms have len: "9 \<le> length board" by simp
  from frame_total(1) [of board TicTacToe depth alpha beta isX] len obtain u bm where
    mm: "minimax TicTacToe board depth alpha beta isX = Inr ((u, bm), board)"
    by auto
  from ttt_result [OF len mm] obtain ms h where
    r: "generate_moves board = Inr ms" "heuristic board = Inr h"
       "if depth = 0 \<or> ms = [] then u = Fin h \<and> bm = - 1
        else (\<exists>w. u = Fin w) \<and> bm \<in> int ` set ms"
    by blast
  have "bm \<in> int ` set ms \<longrightarrow> 0 \<le> bm \<and> bm < 9"
    using generate_moves_lt9 [OF len r(1)] by auto
  with mm r show ?thesis
    by (auto split: if_splits)
qed

text \<open>
  C1: in \<^verbatim>\<open>SOA_TTT.py\<close> the cutoff test is \<^verbatim>\<open>depth == 0 or check_win(board, isX)\<close>. On
  the full board \<^verbatim>\<open>x o x / x o x / o x o\<close>, which has no legal move, with depth 1 the loop
  runs over the empty move list and the function returns \<^verbatim>\<open>(-inf, -1)\<close>, not the value 0
  of \<^verbatim>\<open>heuristic\<close>; the function of \<^verbatim>\<open>tic_tac_toe.py\<close> returns \<^verbatim>\<open>(0, -1)\<close> there.
\<close>

theorem soa_no_moves_result:
  "generate_moves ''xoxxoxoxo'' = Inr [] \<and> heuristic ''xoxxoxoxo'' = Inr 0 \<and>
   minimax SOA ''xoxxoxoxo'' 1 NegInf PosInf True = Inr ((NegInf, - 1), ''xoxxoxoxo'') \<and>
   minimax TicTacToe ''xoxxoxoxo'' 1 NegInf PosInf True = Inr ((Fin 0, - 1), ''xoxxoxoxo'')"
proof -
  have gh: "generate_moves ''xoxxoxoxo'' = Inr [] \<and> heuristic ''xoxxoxoxo'' = Inr 0"
    by (simp add: generate_moves_def check_win_def win_lines_def getitem_def upt_rec
        heuristic_def line_index_def score_line_def row3_def row2_def row1_def)
  have cw: "check_win ''xoxxoxoxo'' (PBool True) = Inr False"
    by (simp add: check_win_def win_lines_def getitem_def)
  show ?thesis
    by (simp add: minimax.simps gh cw)
qed

text \<open>
  C2: in \<^verbatim>\<open>SOA_TTT.py\<close>, on the board \<^verbatim>\<open>x o x / x o e / o x e\<close> with depth 100 and
  \<^verbatim>\<open>x\<close> to move, the move list is \<^verbatim>\<open>[5, 8]\<close> and the function returns \<^verbatim>\<open>(-inf, -1)\<close>:
  every line of play ends on a board without legal moves, whose utility is the initial
  \<^verbatim>\<open>-inf\<close> or \<^verbatim>\<open>inf\<close>, and no candidate is strictly better than \<^verbatim>\<open>-inf\<close>. The function of
  \<^verbatim>\<open>tic_tac_toe.py\<close> returns \<^verbatim>\<open>(0, 5)\<close> there.
\<close>

theorem soa_no_move_chosen:
  "generate_moves ''xoxxoeoxe'' = Inr [5, 8] \<and>
   minimax SOA ''xoxxoeoxe'' 100 NegInf PosInf True = Inr ((NegInf, - 1), ''xoxxoeoxe'') \<and>
   minimax TicTacToe ''xoxxoeoxe'' 100 NegInf PosInf True = Inr ((Fin 0, 5), ''xoxxoeoxe'')"
proof -
  have "generate_moves ''xoxxoeoxe'' = Inr [5, 8]"
    by (simp add: generate_moves_def check_win_def win_lines_def getitem_def upt_rec)
  moreover have "minimax SOA ''xoxxoeoxe'' 100 NegInf PosInf True
      = Inr ((NegInf, - 1), ''xoxxoeoxe'')"
    by code_simp
  moreover have "minimax TicTacToe ''xoxxoeoxe'' 100 NegInf PosInf True
      = Inr ((Fin 0, 5), ''xoxxoeoxe'')"
    by code_simp
  ultimately show ?thesis by blast
qed

end
